theory Spec2Isabelle
  imports Main "HOL-Library.Sublist"
begin

section \<open>Data model\<close>

text \<open>
  The program is a Go server: a task table kept through an object-relational mapper, one
  background worker (\<open>taskWorker\<close>), one broadcast dispatcher (\<open>handleMessages\<close>) and one
  session loop per WebSocket connection (\<open>serveWs\<close>).

  Time stamps are natural numbers; the zero value of Go's \<open>time.Time\<close> is 0. A
  connection (\<open>*websocket.Conn\<close>) is identified by a natural number. Task identifiers
  are Go \<open>uint\<close>; they are assigned by the table's counter and never computed with, so
  they are natural numbers here.
\<close>

type_synonym time = nat
type_synonym conn = nat

record Task =
  ID :: nat
  Prompt :: string
  Status :: string
  ImagePath :: string
  CreatedAt :: time
  UpdatedAt :: time

datatype WSMessage = WSMessage (msg_Type: string) (msg_Prompt: string)

datatype WSData = TaskData Task | TaskList "Task list"

datatype WSResponse = WSResponse (resp_Type: string) (resp_Data: WSData)

datatype error = ErrRecordNotFound | ErrStorage | ErrIO | ErrPython string

text \<open>What the program prints with \<open>log.Printf\<close>, and its calls of \<open>time.Sleep\<close> (seconds).\<close>

datatype effect =
    LogDatabaseError error
  | LogProcessing nat string
  | LogFailed nat error
  | LogCompleted nat
  | LogUpgrade error
  | Sleep nat

definition zeroTask :: Task where
  "zeroTask = \<lparr>ID = 0, Prompt = [], Status = [], ImagePath = [], CreatedAt = 0, UpdatedAt = 0\<rparr>"

section \<open>The task table\<close>

text \<open>
  The table is the list of its rows in insertion order, with the counter of the
  auto-incremented primary key. The mapper (gorm over SQLite) is outside the program; its
  calls are modelled by what they do to the table and to the value they are given by
  reference. Every call of the mapper that the source writes can report a storage error;
  whether it does is an input (\<open>fails\<close>), as is the clock (\<open>now\<close>). A failed call leaves
  the table as it was; the value has by then the time stamps the mapper sets before it
  runs the statement.
\<close>

record store =
  rows :: "Task list"
  seq :: nat

definition pending :: "Task list \<Rightarrow> Task list" where
  "pending ts = filter (\<lambda>t. Status t = ''Pending'') ts"

text \<open>The order \<open>created_at asc, id asc\<close> on rows.\<close>

definition key_le :: "Task \<Rightarrow> Task \<Rightarrow> bool" where
  "key_le a b \<longleftrightarrow> CreatedAt a < CreatedAt b \<or> (CreatedAt a = CreatedAt b \<and> ID a \<le> ID b)"

text \<open>
  \<open>Order("created_at asc").First(&task)\<close>: the mapper's \<open>First\<close> appends the primary key
  to the ordering already given and limits the result to one row, so the statement is
  \<open>ORDER BY created_at asc, id LIMIT 1\<close>.
\<close>

fun first_row :: "Task list \<Rightarrow> Task option" where
  "first_row [] = None"
| "first_row (t # ts) =
     (case first_row ts of
        None \<Rightarrow> Some t
      | Some u \<Rightarrow> if key_le t u then Some t else Some u)"

definition db_First :: "bool \<Rightarrow> store \<Rightarrow> error + Task" where
  "db_First fails st =
     (if fails then Inl ErrStorage
      else case first_row (pending (rows st)) of
             None \<Rightarrow> Inl ErrRecordNotFound
           | Some t \<Rightarrow> Inr t)"

text \<open>
  When the mapper inserts a value it first sets each of the two time stamps that is zero
  to the current time.
\<close>

definition auto_time :: "time \<Rightarrow> Task \<Rightarrow> Task" where
  "auto_time now task =
     task\<lparr>CreatedAt := (if CreatedAt task = 0 then now else CreatedAt task),
          UpdatedAt := (if UpdatedAt task = 0 then now else UpdatedAt task)\<rparr>"

text \<open>
  \<open>Create\<close>, called by the program with a value whose key is zero: the time stamps are
  set in the value, then the row is inserted and the value gets the next value of the
  counter as its key. The result is the error, the value after the call and the table.
  When the insert fails the value keeps the key zero and the time stamps just set.
\<close>

definition db_Create :: "bool \<Rightarrow> time \<Rightarrow> Task \<Rightarrow> store \<Rightarrow> error option \<times> Task \<times> store" where
  "db_Create fails now task st =
     (let task1 = auto_time now task in
      if fails then (Some ErrStorage, task1, st)
      else let task2 = task1\<lparr>ID := Suc (seq st)\<rparr> in
        (None, task2, st\<lparr>rows := rows st @ [task2], seq := Suc (seq st)\<rparr>))"

text \<open>
  \<open>Save\<close>. A value whose key is zero is created. Otherwise \<open>UpdatedAt\<close> is set to the
  current time in the value, and every field of the value is written to the row with its
  key; when no row has that key the value is inserted with that key. When the statement
  fails the table is as before and the value has its new \<open>UpdatedAt\<close>.
\<close>

definition db_Save :: "bool \<Rightarrow> time \<Rightarrow> Task \<Rightarrow> store \<Rightarrow> error option \<times> Task \<times> store" where
  "db_Save fails now task st =
     (if ID task = 0 then db_Create fails now task st
      else let task' = task\<lparr>UpdatedAt := now\<rparr> in
        if fails then (Some ErrStorage, task', st)
        else if ID task \<in> ID ` set (rows st)
        then (None, task', st\<lparr>rows := map (\<lambda>r. if ID r = ID task then task' else r) (rows st)\<rparr>)
        else (None, auto_time now task',
              st\<lparr>rows := rows st @ [auto_time now task'], seq := max (seq st) (ID task)\<rparr>))"

text \<open>
  \<open>Order("created_at desc").Limit(20).Find(&tasks)\<close>. The statement orders by
  \<open>created_at\<close> only; rows with equal \<open>created_at\<close> come out of SQLite in the order of their
  keys, smallest first.
\<close>

definition db_Find_recent :: "bool \<Rightarrow> nat \<Rightarrow> store \<Rightarrow> error + Task list" where
  "db_Find_recent fails limit st =
     (if fails then Inl ErrStorage
      else Inr (take limit (rev (sort_key CreatedAt (rev (sort_key ID (rows st)))))))"

section \<open>The state of the server\<close>

text \<open>
  The globals \<open>db\<close>, \<open>clients\<close> and \<open>broadcast\<close>, together with what the program has done
  to the outside: the frames written to each socket, the sockets closed, the log lines and
  the sleeps. A frame is the response value; its JSON text is not modelled. The channel
  \<open>broadcast\<close> is the list of the values sent on it and not yet received, oldest first.

  Each goroutine has its place in its loop. The worker is at the head of its loop, has
  claimed a task and not yet announced it, holds an announced task while the generator
  runs, or has saved the outcome and not yet announced it. A session is about to read, or
  has computed a private reply and not yet written it, or has created a task and not yet
  sent the event; connections without a running session loop have no place.
\<close>

datatype worker_pc = Idle | Claimed Task | Holding Task | Finished Task

datatype session_pc = Reading | Replying WSResponse | Sending WSResponse

record world =
  db :: store
  clients :: "conn \<rightharpoonup> bool"
  broadcast :: "WSResponse list"
  sent :: "conn \<Rightarrow> WSResponse list"
  closed :: "conn set"
  effects :: "effect list"
  worker :: worker_pc
  session :: "conn \<rightharpoonup> session_pc"

text \<open>
  The state when \<open>main\<close> has opened the database and started the worker and the
  dispatcher: the table is what the database file holds, nothing else has happened yet.
  A table left by earlier runs has distinct keys, none of them zero or above the counter,
  and an image path only in completed rows.
\<close>

definition boot :: "store \<Rightarrow> world" where
  "boot st = \<lparr>db = st, clients = Map.empty, broadcast = [],
              sent = (\<lambda>_. []), closed = {}, effects = [], worker = Idle,
              session = Map.empty\<rparr>"

definition table_ok :: "store \<Rightarrow> bool" where
  "table_ok st \<longleftrightarrow>
     distinct (map ID (rows st)) \<and>
     (\<forall>r \<in> set (rows st). 0 < ID r \<and> ID r \<le> seq st) \<and>
     (\<forall>r \<in> set (rows st). Status r \<noteq> ''Completed'' \<longrightarrow> ImagePath r = [])"

definition init :: world where
  "init = boot \<lparr>rows = [], seq = 0\<rparr>"

definition logf :: "effect \<Rightarrow> world \<Rightarrow> world" where
  "logf e w = w\<lparr>effects := effects w @ [e]\<rparr>"

text \<open>
  A send on the channel. The channel is unbuffered, so the sender waits until the
  dispatcher receives; here the value joins the waiting values and the sender goes on,
  which allows every order of events the program has and more.
\<close>

definition publish :: "WSResponse \<Rightarrow> world \<Rightarrow> world" where
  "publish m w = w\<lparr>broadcast := broadcast w @ [m]\<rparr>"

section \<open>The dispatcher\<close>

text \<open>
  One iteration of the loop of \<open>handleMessages\<close>: receive the oldest value of the channel
  and, holding the mutex, write it to every registered connection; a connection whose
  write fails (\<open>wfail\<close>) is closed and deleted. With nothing to receive the dispatcher
  waits. The body for one connection touches that connection only, so the order in which
  the map is ranged over does not show.
\<close>

definition handleMessages_step :: "(conn \<Rightarrow> bool) \<Rightarrow> world \<Rightarrow> world" where
  "handleMessages_step wfail w =
     (case broadcast w of
        [] \<Rightarrow> w
      | msg # rest \<Rightarrow>
          w\<lparr>broadcast := rest,
            sent := (\<lambda>c. if c \<in> dom (clients w) \<and> \<not> wfail c then sent w c @ [msg] else sent w c),
            clients := (\<lambda>c. if c \<in> dom (clients w) \<and> wfail c then None else clients w c),
            closed := closed w \<union> {c \<in> dom (clients w). wfail c}\<rparr>)"

section \<open>The worker\<close>

definition notifyUpdate :: "Task \<Rightarrow> world \<Rightarrow> world" where
  "notifyUpdate task w = publish (WSResponse ''update'' (TaskData task)) w"

text \<open>
  The transaction of \<open>taskWorker\<close>: select the first pending row, mark it, save it. The
  result is the error of the transaction, the flag \<open>found\<close>, the variable \<open>task\<close> and the
  table. The transaction is one step, as the isolation of the database makes it: nothing
  else touches the table between its select and its save.

  \<open>db.Transaction\<close> runs the function it is given and, when that returns no error,
  commits. When the function returns an error, or the commit fails, the transaction is
  rolled back: the table is as before, and the error is the result. The function sets
  \<open>found\<close> as its last statement, before the commit; so after a failed commit \<open>found\<close> is
  true, \<open>task\<close> is the marked task, and the row is still pending. A transaction that
  cannot be begun returns its error before the function runs; nothing was read or written
  and \<open>found\<close> is false, which is the outcome of a failed select, and \<open>first_fails\<close>
  stands for both.
\<close>

definition claim_tx ::
  "bool \<Rightarrow> bool \<Rightarrow> bool \<Rightarrow> time \<Rightarrow> store \<Rightarrow> error option \<times> bool \<times> Task \<times> store" where
  "claim_tx first_fails save_fails commit_fails now st =
     (case db_First first_fails st of
        Inl e \<Rightarrow> (Some e, False, zeroTask, st)
      | Inr t \<Rightarrow>
          (case db_Save save_fails now (t\<lparr>Status := ''Processing''\<rparr>) st of
             (Some e, task, st') \<Rightarrow> (Some e, False, task, st)
           | (None, task, st') \<Rightarrow>
               if commit_fails then (Some ErrStorage, True, task, st)
               else (None, True, task, st')))"

text \<open>The decimal digits of a number, as \<open>%d\<close> prints them.\<close>

definition digit :: "nat \<Rightarrow> char" where
  "digit n = ''0123456789'' ! n"

fun digits :: "nat \<Rightarrow> string" where
  "digits n = (if n < 10 then [digit n] else digits (n div 10) @ [digit (n mod 10)])"

declare digits.simps [simp del]

text \<open>
  \<open>runPythonZImage\<close>: the command either fails with its captured output, or succeeds, and
  then the result is the file name made of the task's key and the Unix time.
\<close>

definition runPythonZImage :: "string option \<Rightarrow> nat \<Rightarrow> string \<Rightarrow> nat \<Rightarrow> error + string" where
  "runPythonZImage cmd_err unix prompt ident =
     (case cmd_err of
        Some out \<Rightarrow> Inl (ErrPython out)
      | None \<Rightarrow> Inr (''task_'' @ digits ident @ ''_'' @ digits unix @ ''.png''))"

text \<open>
  The head of an iteration of \<open>taskWorker\<close>: the transaction, the log line for an error
  other than \<open>ErrRecordNotFound\<close>, and then either the claimed task in hand or the sleep.
\<close>

definition taskWorker_claim :: "bool \<Rightarrow> bool \<Rightarrow> bool \<Rightarrow> time \<Rightarrow> world \<Rightarrow> world" where
  "taskWorker_claim first_fails save_fails commit_fails now w =
     (case claim_tx first_fails save_fails commit_fails now (db w) of
        (err, found, task, st) \<Rightarrow>
          (let w1 = w\<lparr>db := st\<rparr>;
               w2 = (case err of
                       None \<Rightarrow> w1
                     | Some e \<Rightarrow> if e \<noteq> ErrRecordNotFound then logf (LogDatabaseError e) w1 else w1)
           in if found then w2\<lparr>worker := Claimed task\<rparr>
              else logf (Sleep 2) w2))"

text \<open>The two calls of \<open>notifyUpdate\<close>: after the claim, and after the outcome is saved.\<close>

definition taskWorker_notify :: "world \<Rightarrow> world" where
  "taskWorker_notify w =
     (case worker w of
        Claimed task \<Rightarrow> (notifyUpdate task w)\<lparr>worker := Holding task\<rparr>
      | Finished task \<Rightarrow> (notifyUpdate task w)\<lparr>worker := Idle\<rparr>
      | _ \<Rightarrow> w)"

text \<open>Between them: run the generator, set the outcome, save it; the error of the save is dropped.\<close>

definition taskWorker_generate :: "string option \<Rightarrow> nat \<Rightarrow> bool \<Rightarrow> time \<Rightarrow> Task \<Rightarrow> world \<Rightarrow> world" where
  "taskWorker_generate cmd_err unix save_fails now task w =
     (let w1 = logf (LogProcessing (ID task) (Prompt task)) w;
          task1 = (case runPythonZImage cmd_err unix (Prompt task) (ID task) of
                     Inl genErr \<Rightarrow> task\<lparr>Status := ''Failed''\<rparr>
                   | Inr imagePath \<Rightarrow> task\<lparr>Status := ''Completed'', ImagePath := imagePath\<rparr>);
          w2 = (case runPythonZImage cmd_err unix (Prompt task) (ID task) of
                  Inl genErr \<Rightarrow> logf (LogFailed (ID task) genErr) w1
                | Inr imagePath \<Rightarrow> logf (LogCompleted (ID task)) w1)
      in case db_Save save_fails now task1 (db w2) of
           (err, task2, st) \<Rightarrow> w2\<lparr>db := st, worker := Finished task2\<rparr>)"

section \<open>The session of one connection\<close>

definition serveWs_register :: "conn \<Rightarrow> bool \<Rightarrow> world \<Rightarrow> world" where
  "serveWs_register ws upgrade_fails w =
     (if upgrade_fails then logf (LogUpgrade ErrIO) w
      else w\<lparr>clients := (clients w)(ws \<mapsto> True), session := (session w)(ws \<mapsto> Reading)\<rparr>)"

definition history_reply :: "bool \<Rightarrow> store \<Rightarrow> WSResponse" where
  "history_reply find_fails st =
     WSResponse ''history''
       (TaskList (case db_Find_recent find_fails 20 st of Inl e \<Rightarrow> [] | Inr ts \<Rightarrow> ts))"

text \<open>
  An iteration of the loop of \<open>serveWs\<close> up to its write or send. \<open>rd\<close> is the outcome of
  \<open>ReadJSON\<close>. On a read error the connection is deleted from \<open>clients\<close>, the loop ends and
  the deferred \<open>Close\<close> runs. For \<open>get_history\<close> the reply is computed from the table; for
  \<open>create_task\<close> the task is created; a message of another type does nothing.
\<close>

definition serveWs_read :: "conn \<Rightarrow> error + WSMessage \<Rightarrow> bool \<Rightarrow> bool \<Rightarrow> time \<Rightarrow> world \<Rightarrow> world" where
  "serveWs_read ws rd find_fails create_fails now w =
     (case rd of
        Inl e \<Rightarrow>
          w\<lparr>clients := (clients w)(ws := None), closed := insert ws (closed w),
            session := (session w)(ws := None)\<rparr>
      | Inr msg \<Rightarrow>
          if msg_Type msg = ''get_history'' then
            w\<lparr>session := (session w)(ws \<mapsto> Replying (history_reply find_fails (db w)))\<rparr>
          else if msg_Type msg = ''create_task'' then
            (let newTask = zeroTask\<lparr>Prompt := msg_Prompt msg, Status := ''Pending''\<rparr> in
             case db_Create create_fails now newTask (db w) of
               (err, newTask', st) \<Rightarrow>
                 w\<lparr>db := st,
                   session := (session w)(ws \<mapsto> Sending (WSResponse ''new_task'' (TaskData newTask')))\<rparr>)
          else w)"

text \<open>\<open>ws.WriteJSON(resp)\<close>, whose error is dropped, and \<open>broadcast <- jsonResp\<close>.\<close>

definition serveWs_reply :: "conn \<Rightarrow> bool \<Rightarrow> WSResponse \<Rightarrow> world \<Rightarrow> world" where
  "serveWs_reply ws write_fails resp w =
     (if write_fails then w\<lparr>session := (session w)(ws \<mapsto> Reading)\<rparr>
      else w\<lparr>sent := (sent w)(ws := sent w ws @ [resp]), session := (session w)(ws \<mapsto> Reading)\<rparr>)"

definition serveWs_send :: "conn \<Rightarrow> WSResponse \<Rightarrow> world \<Rightarrow> world" where
  "serveWs_send ws resp w = (publish resp w)\<lparr>session := (session w)(ws \<mapsto> Reading)\<rparr>"

section \<open>The server as interleaved steps\<close>

text \<open>
  The goroutines run interleaved. A step of a goroutine has at most one access to what
  the goroutines share (the table, the channel, the set of connections, a socket), and
  carries what the outside does in it: the outcome of a read, of a write, of a call of
  the mapper or of the generator, and the clock. A step that does not fit the place of its
  goroutine does nothing. The dispatcher's step is its receive together with the writes
  it does holding the mutex; only the dispatcher removes from the channel, so it does not
  matter at which of the two moments the value leaves the list.
\<close>

datatype action =
    Connect conn bool
  | Read conn "error + WSMessage" bool bool time
  | Reply conn bool
  | Send conn
  | Dispatch "conn \<Rightarrow> bool"
  | Poll bool bool bool time
  | Notify
  | Finish "string option" nat bool time

fun step :: "action \<Rightarrow> world \<Rightarrow> world" where
  "step (Connect ws upgrade_fails) w =
     (case session w ws of
        None \<Rightarrow> serveWs_register ws upgrade_fails w
      | Some pc \<Rightarrow> w)"
| "step (Read ws rd find_fails create_fails now) w =
     (case session w ws of
        Some Reading \<Rightarrow> serveWs_read ws rd find_fails create_fails now w
      | _ \<Rightarrow> w)"
| "step (Reply ws write_fails) w =
     (case session w ws of
        Some (Replying resp) \<Rightarrow> serveWs_reply ws write_fails resp w
      | _ \<Rightarrow> w)"
| "step (Send ws) w =
     (case session w ws of
        Some (Sending resp) \<Rightarrow> serveWs_send ws resp w
      | _ \<Rightarrow> w)"
| "step (Dispatch wfail) w = handleMessages_step wfail w"
| "step (Poll first_fails save_fails commit_fails now) w =
     (case worker w of
        Idle \<Rightarrow> taskWorker_claim first_fails save_fails commit_fails now w
      | _ \<Rightarrow> w)"
| "step Notify w = taskWorker_notify w"
| "step (Finish cmd_err unix save_fails now) w =
     (case worker w of
        Holding task \<Rightarrow> taskWorker_generate cmd_err unix save_fails now task w
      | _ \<Rightarrow> w)"

fun run :: "action list \<Rightarrow> world \<Rightarrow> world" where
  "run [] w = w"
| "run (a # as) w = run as (step a w)"

text \<open>
  One iteration of the loop of \<open>serveWs\<close> and one of \<open>taskWorker\<close> when nothing else runs
  in between.
\<close>

definition serveWs_iteration ::
  "conn \<Rightarrow> error + WSMessage \<Rightarrow> bool \<Rightarrow> bool \<Rightarrow> bool \<Rightarrow> time \<Rightarrow> world \<Rightarrow> world" where
  "serveWs_iteration ws rd find_fails write_fails create_fails now w =
     run [Read ws rd find_fails create_fails now, Reply ws write_fails, Send ws] w"

definition taskWorker_iteration ::
  "bool \<Rightarrow> bool \<Rightarrow> bool \<Rightarrow> time \<Rightarrow> string option \<Rightarrow> nat \<Rightarrow> bool \<Rightarrow> time \<Rightarrow> world \<Rightarrow> world" where
  "taskWorker_iteration first_fails save_fails commit_fails now cmd_err unix final_save_fails now' w =
     run [Poll first_fails save_fails commit_fails now, Notify,
          Finish cmd_err unix final_save_fails now', Notify] w"

section \<open>Notions used to state the properties\<close>

subsection \<open>Claiming by several callers\<close>

text \<open>
  Several callers run the claiming transaction of \<open>taskWorker\<close> against one table. Each
  transaction is one step, so an execution is a sequence of attempts, each by some caller
  and with its own storage outcome. The result lists who was handed which task: a caller
  is handed the task when it leaves the transaction with \<open>found\<close> true, as \<open>taskWorker\<close>
  tests it.
\<close>

fun claim_many ::
  "(nat \<times> bool \<times> bool \<times> bool \<times> time) list \<Rightarrow> store \<Rightarrow> (nat \<times> Task) list \<times> store" where
  "claim_many [] st = ([], st)"
| "claim_many ((caller, first_fails, save_fails, commit_fails, now) # cs) st =
     (case claim_tx first_fails save_fails commit_fails now st of
        (err, found, task, st') \<Rightarrow>
          (case claim_many cs st' of
             (res, st'') \<Rightarrow> ((if found then [(caller, task)] else []) @ res, st'')))"

subsection \<open>Status changes\<close>

definition status_of :: "store \<Rightarrow> nat \<Rightarrow> string option" where
  "status_of st i = map_option Status (find (\<lambda>r. ID r = i) (rows st))"

definition legal_edge :: "string \<Rightarrow> string \<Rightarrow> bool" where
  "legal_edge a b \<longleftrightarrow>
     (a = ''Pending'' \<and> b = ''Processing'') \<or>
     (a = ''Processing'' \<and> (b = ''Completed'' \<or> b = ''Failed''))"

text \<open>
  What one step may do to the stored status of one task: leave it, create the task as
  pending, or move it along a legal edge.
\<close>

definition status_change_ok :: "string option \<Rightarrow> string option \<Rightarrow> bool" where
  "status_change_ok a b =
     (case a of
        None \<Rightarrow> b = None \<or> b = Some ''Pending''
      | Some s \<Rightarrow> (case b of None \<Rightarrow> False | Some s' \<Rightarrow> s' = s \<or> legal_edge s s'))"

subsection \<open>What holds in every state the server reaches\<close>

text \<open>
  The task in the worker's hands is marked \<open>Processing\<close> and has no image path; its row
  is in the table, marked \<open>Processing\<close>, or still \<open>Pending\<close> when the commit of the claim
  failed.
\<close>

definition held :: "world \<Rightarrow> Task \<Rightarrow> bool" where
  "held w t \<longleftrightarrow>
     Status t = ''Processing'' \<and> ImagePath t = [] \<and>
     (\<exists>r \<in> set (rows (db w)). ID r = ID t \<and> (Status r = ''Pending'' \<or> Status r = ''Processing''))"

definition consistent :: "world \<Rightarrow> bool" where
  "consistent w \<longleftrightarrow>
     table_ok (db w) \<and>
     (\<forall>m \<in> set (broadcast w). resp_Type m \<noteq> ''history'') \<and>
     (\<forall>c resp. session w c = Some (Sending resp) \<longrightarrow> resp_Type resp \<noteq> ''history'') \<and>
     (\<forall>c resp. session w c = Some (Replying resp) \<longrightarrow> resp_Type resp = ''history'') \<and>
     (\<forall>t. worker w = Claimed t \<or> worker w = Holding t \<longrightarrow> held w t)"

subsection \<open>Observing the broadcast channel\<close>

text \<open>The values a step sends on the channel, and those the dispatcher receives in it.\<close>

definition published :: "action \<Rightarrow> world \<Rightarrow> WSResponse list" where
  "published a w =
     (case a of
        Dispatch wfail \<Rightarrow> []
      | _ \<Rightarrow> drop (length (broadcast w)) (broadcast (step a w)))"

definition delivered :: "action \<Rightarrow> world \<Rightarrow> WSResponse list" where
  "delivered a w = (case a of Dispatch wfail \<Rightarrow> take 1 (broadcast w) | _ \<Rightarrow> [])"

fun publications :: "action list \<Rightarrow> world \<Rightarrow> WSResponse list" where
  "publications [] w = []"
| "publications (a # as) w = published a w @ publications as (step a w)"

fun deliveries :: "action list \<Rightarrow> world \<Rightarrow> WSResponse list" where
  "deliveries [] w = []"
| "deliveries (a # as) w = delivered a w @ deliveries as (step a w)"

text \<open>The broadcast events a connection has been written: all frames but history replies.\<close>

definition events :: "world \<Rightarrow> conn \<Rightarrow> WSResponse list" where
  "events w c = filter (\<lambda>m. resp_Type m \<noteq> ''history'') (sent w c)"

definition history_frames :: "world \<Rightarrow> conn \<Rightarrow> WSResponse list" where
  "history_frames w c = filter (\<lambda>m. resp_Type m = ''history'') (sent w c)"

text \<open>
  A connection is undisturbed in a sequence of steps when none of them is a failed read
  of its session or a dispatch in which the write to it fails.
\<close>

fun undisturbed :: "conn \<Rightarrow> action list \<Rightarrow> bool" where
  "undisturbed c [] = True"
| "undisturbed c (a # as) =
     ((case a of
         Read ws rd find_fails create_fails now \<Rightarrow> \<not> (ws = c \<and> isl rd)
       | Dispatch wfail \<Rightarrow> \<not> wfail c
       | _ \<Rightarrow> True) \<and> undisturbed c as)"

text \<open>The steps of the worker.\<close>

definition by_worker :: "action \<Rightarrow> bool" where
  "by_worker a =
     (case a of
        Poll first_fails save_fails commit_fails now \<Rightarrow> True
      | Notify \<Rightarrow> True
      | Finish cmd_err unix save_fails now \<Rightarrow> True
      | _ \<Rightarrow> False)"

subsection \<open>Example data\<close>

definition ex_task :: "nat \<Rightarrow> string \<Rightarrow> string \<Rightarrow> time \<Rightarrow> Task" where
  "ex_task i p s c = \<lparr>ID = i, Prompt = p, Status = s, ImagePath = [], CreatedAt = c, UpdatedAt = c\<rparr>"

definition ex_store :: store where
  "ex_store = \<lparr>rows = [ex_task 1 ''cat'' ''Failed'' 5, ex_task 2 ''dog'' ''Pending'' 9,
                        ex_task 3 ''owl'' ''Pending'' 7, ex_task 4 ''fox'' ''Pending'' 7],
               seq = 4\<rparr>"

definition ex_world :: world where
  "ex_world = (boot ex_store)\<lparr>clients := [1 \<mapsto> True, 2 \<mapsto> True],
                                session := [1 \<mapsto> Reading, 2 \<mapsto> Reading]\<rparr>"

definition ex_trace :: "action list" where
  "ex_trace = [Connect 1 False,
               Read 1 (Inr (WSMessage ''create_task'' ''cat'')) False False 5,
               Send 1,
               Poll False False False 6,
               Notify]"

definition ex_held :: Task where
  "ex_held = \<lparr>ID = 1, Prompt = ''cat'', Status = ''Processing'', ImagePath = [],
              CreatedAt = 5, UpdatedAt = 6\<rparr>"

definition ex_callers :: "(nat \<times> bool \<times> bool \<times> bool \<times> time) list" where
  "ex_callers = [(1, False, False, False, 10), (2, True, False, False, 11), (2, False, False, False, 12),
                 (1, False, True, False, 13), (3, False, False, False, 14), (1, False, False, False, 15)]"

text \<open>Two callers, the commit of the first fails; and the worker with a failed commit.\<close>

definition ex_race :: "(nat \<times> bool \<times> bool \<times> bool \<times> time) list" where
  "ex_race = [(1, False, False, True, 10), (2, False, False, False, 11)]"

definition ex_lost_commit :: "action list" where
  "ex_lost_commit = [Poll False False True 10, Notify]"

definition ex_pair :: "action list" where
  "ex_pair = [Connect 1 False, Connect 2 False]"

definition ex_traffic :: "action list" where
  "ex_traffic = [Read 1 (Inr (WSMessage ''create_task'' ''dog'')) False False 5,
                 Send 1,
                 Dispatch (\<lambda>c. False),
                 Read 2 (Inr (WSMessage ''get_history'' [])) False False 6,
                 Reply 2 False,
                 Poll False False False 7,
                 Notify,
                 Dispatch (\<lambda>c. c = 1)]"

definition ex_dog :: "string \<Rightarrow> time \<Rightarrow> Task" where
  "ex_dog s u = \<lparr>ID = 1, Prompt = ''dog'', Status = s, ImagePath = [], CreatedAt = 5, UpdatedAt = u\<rparr>"

definition ex_new :: WSResponse where
  "ex_new = WSResponse ''new_task''
     (TaskData \<lparr>ID = 5, Prompt = ''dog'', Status = ''Pending'', ImagePath = [],
                CreatedAt = 20, UpdatedAt = 20\<rparr>)"

definition ex_history :: "action list" where
  "ex_history = [Connect 1 False, Connect 2 False,
                 Read 1 (Inr (WSMessage ''create_task'' ''dog'')) False False 5,
                 Send 1,
                 Read 2 (Inr (WSMessage ''get_history'' [])) False False 6,
                 Reply 2 False]"

definition ex_meanwhile :: "action list" where
  "ex_meanwhile = [Read 1 (Inr (WSMessage ''get_history'' [])) False False 8,
                   Reply 1 False,
                   Dispatch (\<lambda>c. False)]"

subsection \<open>The earlier worker\<close>

text \<open>
  The file \<open>server.go\<close> holds an earlier \<open>taskWorker\<close>. It selects the first pending
  row and marks it in two statements of their own, outside any transaction, and does not
  look at the error of the save. The program starts one worker; with two callers the
  statements of one can fall between those of the other, as in \<open>old_two_callers\<close>, where
  both select before either marks.
\<close>

definition old_select :: "bool \<Rightarrow> store \<Rightarrow> error + Task" where
  "old_select fails st = db_First fails st"

definition old_mark :: "bool \<Rightarrow> time \<Rightarrow> Task \<Rightarrow> store \<Rightarrow> Task \<times> store" where
  "old_mark save_fails now task st =
     (case db_Save save_fails now (task\<lparr>Status := ''Processing''\<rparr>) st of
        (err, task', st') \<Rightarrow> (task', st'))"

definition old_two_callers :: "time \<Rightarrow> time \<Rightarrow> store \<Rightarrow> (Task \<times> Task \<times> store) option" where
  "old_two_callers now1 now2 st =
     (case (old_select False st, old_select False st) of
        (Inr t1, Inr t2) \<Rightarrow>
          (case old_mark False now1 t1 st of
             (a, st1) \<Rightarrow>
               (case old_mark False now2 t2 st1 of
                  (b, st2) \<Rightarrow> Some (a, b, st2)))
      | _ \<Rightarrow> None)"

subsection \<open>The outcome of a sequence of claims\<close>

definition claims_ok :: "store \<Rightarrow> (nat \<times> Task) list \<Rightarrow> store \<Rightarrow> bool" where
  "claims_ok st res st' \<longleftrightarrow>
     distinct (map (ID \<circ> snd) res) \<and>
     ID ` snd ` set res \<inter> ID ` set (pending (rows st')) = {} \<and>
     ID ` snd ` set res \<union> ID ` set (pending (rows st')) = ID ` set (pending (rows st)) \<and>
     length res + length (pending (rows st')) = length (pending (rows st)) \<and>
     (\<forall>(c, t) \<in> set res. Status t = ''Processing'' \<and> t \<in> set (rows st'))"

section \<open>Evaluating the examples\<close>

lemmas ev = ex_store_def ex_task_def ex_world_def init_def boot_def pending_def key_le_def db_First_def
  db_Save_def db_Create_def auto_time_def db_Find_recent_def ex_race_def ex_lost_commit_def claim_tx_def taskWorker_claim_def taskWorker_notify_def
  taskWorker_generate_def serveWs_read_def serveWs_reply_def serveWs_send_def serveWs_register_def
  handleMessages_step_def history_reply_def notifyUpdate_def publish_def logf_def runPythonZImage_def
  zeroTask_def Let_def status_of_def ex_trace_def ex_held_def ex_callers_def ex_pair_def ex_traffic_def
  ex_dog_def delivered_def published_def events_def history_frames_def ex_new_def ex_history_def
  ex_meanwhile_def
  serveWs_iteration_def taskWorker_iteration_def

lemma ex_trace_run:
  "run ex_trace init =
     \<lparr>db = \<lparr>rows = [ex_held], seq = 1\<rparr>, clients = [1 \<mapsto> True],
      broadcast = [WSResponse ''new_task'' (TaskData (ex_held\<lparr>Status := ''Pending'', UpdatedAt := 5\<rparr>)),
                   WSResponse ''update'' (TaskData ex_held)],
      sent = (\<lambda>_. []), closed = {}, effects = [], worker = Holding ex_held,
      session = [1 \<mapsto> Reading]\<rparr>"
  by (simp add: ev)

lemma runPythonZImage_name: "runPythonZImage None 171234 ''cat'' 1 = Inr ''task_1_171234.png''"
  by (simp add: runPythonZImage_def digits.simps digit_def)

section \<open>The table\<close>

lemma key_le_total: "key_le a b \<or> key_le b a"
  by (auto simp: key_le_def)

lemma key_le_trans: "key_le a b \<Longrightarrow> key_le b c \<Longrightarrow> key_le a c"
  by (auto simp: key_le_def)

lemma key_le_refl: "key_le a a"
  by (simp add: key_le_def)

lemma first_row_None: "first_row ts = None \<longleftrightarrow> ts = []"
  by (cases ts) (auto split: option.splits if_splits)

lemma first_row_mem: "first_row ts = Some t \<Longrightarrow> t \<in> set ts"
  by (induction ts arbitrary: t) (auto split: option.splits if_splits)

lemma first_row_least: "first_row ts = Some t \<Longrightarrow> u \<in> set ts \<Longrightarrow> key_le t u"
proof (induction ts arbitrary: t)
  case Nil
  then show ?case by simp
next
  case (Cons x xs)
  show ?case
  proof (cases "first_row xs")
    case None
    then have "xs = []" by (simp add: first_row_None)
    with Cons.prems None show ?thesis by (simp add: key_le_refl)
  next
    case (Some m)
    show ?thesis
    proof (cases "key_le x m")
      case True
      with Some Cons.prems have t: "t = x" by simp
      from Cons.prems(2) have "u = x \<or> u \<in> set xs" by simp
      then show ?thesis
      proof
        assume "u = x" with t show ?thesis by (simp add: key_le_refl)
      next
        assume "u \<in> set xs"
        with Cons.IH [OF Some] have "key_le m u" .
        with True t show ?thesis by (blast intro: key_le_trans)
      qed
    next
      case False
      with Some Cons.prems have t: "t = m" by simp
      from False have mx: "key_le m x" using key_le_total by blast
      from Cons.prems(2) have "u = x \<or> u \<in> set xs" by simp
      then show ?thesis
      proof
        assume "u = x" with t mx show ?thesis by simp
      next
        assume "u \<in> set xs"
        with Cons.IH [OF Some] t show ?thesis by simp
      qed
    qed
  qed
qed

lemma pending_set: "set (pending ts) = {t \<in> set ts. Status t = ''Pending''}"
  by (auto simp: pending_def)

lemma claim_tx_unchanged:
  assumes "claim_tx ff fs cf now st = (err, found, task, st')" and "\<not> found \<or> cf"
  shows "st' = st \<and> err \<noteq> None"
  using assms
  by (auto simp: claim_tx_def db_First_def split: sum.splits option.splits prod.splits if_splits)

lemma db_Save_row:
  assumes "t \<in> set (rows st)" and "ID t \<noteq> 0"
  shows "db_Save fs now t' st =
           (if ID t' = ID t
            then (if fs then Some ErrStorage else None, t'\<lparr>UpdatedAt := now\<rparr>,
                  if fs then st
                  else st\<lparr>rows := map (\<lambda>r. if ID r = ID t then t'\<lparr>UpdatedAt := now\<rparr> else r) (rows st)\<rparr>)
            else db_Save fs now t' st)"
proof -
  from assms(1) have "ID t \<in> ID ` set (rows st)" by (rule imageI)
  with assms(2) show ?thesis by (simp add: db_Save_def Let_def)
qed

lemma claim_tx_cases:
  assumes c: "claim_tx ff fs cf now st = (err, found, task, st')"
    and nz: "\<forall>r \<in> set (rows st). ID r \<noteq> 0"
  shows "(\<not> found \<and> st' = st \<and> err \<noteq> None) \<or>
         (found \<and> \<not> ff \<and> \<not> fs \<and>
            (\<exists>t. first_row (pending (rows st)) = Some t \<and>
                 task = t\<lparr>Status := ''Processing'', UpdatedAt := now\<rparr> \<and>
                 (if cf then err = Some ErrStorage \<and> st' = st
                  else err = None \<and>
                       st' = st\<lparr>rows := map (\<lambda>r. if ID r = ID t then task else r) (rows st)\<rparr>)))"
proof (cases "ff \<or> first_row (pending (rows st)) = None")
  case True
  then consider "ff" | "\<not> ff" "first_row (pending (rows st)) = None" by auto
  then show ?thesis
  proof cases
    case 1
    with c show ?thesis by (auto simp: claim_tx_def db_First_def)
  next
    case 2
    with c show ?thesis by (auto simp: claim_tx_def db_First_def)
  qed
next
  case False
  then obtain t where t: "first_row (pending (rows st)) = Some t" and f: "\<not> ff" by auto
  from first_row_mem [OF t] have mem: "t \<in> set (rows st)" by (simp add: pending_set)
  with nz have z: "ID t \<noteq> 0" by blast
  have sv: "db_Save fs now (t\<lparr>Status := ''Processing''\<rparr>) st =
           (if fs then Some ErrStorage else None, t\<lparr>Status := ''Processing'', UpdatedAt := now\<rparr>,
            if fs then st
            else st\<lparr>rows := map (\<lambda>r. if ID r = ID t then t\<lparr>Status := ''Processing'', UpdatedAt := now\<rparr> else r)
                               (rows st)\<rparr>)"
    using db_Save_row [OF mem z, of fs now "t\<lparr>Status := ''Processing''\<rparr>"] by simp
  have "claim_tx ff fs cf now st =
          (case db_Save fs now (t\<lparr>Status := ''Processing''\<rparr>) st of
             (Some e, task, st') \<Rightarrow> (Some e, False, task, st)
           | (None, task, st') \<Rightarrow>
               if cf then (Some ErrStorage, True, task, st) else (None, True, task, st'))"
    using t f by (simp add: claim_tx_def db_First_def)
  with c have "(if fs then (Some ErrStorage, False, t\<lparr>Status := ''Processing'', UpdatedAt := now\<rparr>, st)
                else if cf then (Some ErrStorage, True, t\<lparr>Status := ''Processing'', UpdatedAt := now\<rparr>, st)
                else (None, True, t\<lparr>Status := ''Processing'', UpdatedAt := now\<rparr>,
                      st\<lparr>rows := map (\<lambda>r. if ID r = ID t then t\<lparr>Status := ''Processing'', UpdatedAt := now\<rparr> else r)
                                         (rows st)\<rparr>)) = (err, found, task, st')"
    unfolding sv by (cases fs) simp_all
  with t f show ?thesis by (cases fs; cases cf) auto
qed

lemma map_ID_replace:
  "ID t' = i \<Longrightarrow> map ID (map (\<lambda>r. if ID r = i then t' else r) rs) = map ID rs"
  by (induction rs) auto

lemma map_ID_replace_comp:
  "ID t' = i \<Longrightarrow> map (ID \<circ> (\<lambda>r. if ID r = i then t' else r)) rs = map ID rs"
  by (induction rs) auto

lemma set_replace:
  "r' \<in> set (map (\<lambda>r. if ID r = i then t' else r) rs) \<Longrightarrow> r' = t' \<or> (r' \<in> set rs \<and> ID r' \<noteq> i)"
  by (induction rs) (auto split: if_splits)

lemma replace_mem:
  "r \<in> set rs \<Longrightarrow> ID r = i \<Longrightarrow> t' \<in> set (map (\<lambda>r. if ID r = i then t' else r) rs)"
  by (induction rs) auto

lemma find_append_ID:
  "find (\<lambda>r. ID r = i) (rs @ [t]) =
     (case find (\<lambda>r. ID r = i) rs of Some r \<Rightarrow> Some r | None \<Rightarrow> if ID t = i then Some t else None)"
  by (induction rs) auto

lemma find_distinct_ID:
  "distinct (map ID rs) \<Longrightarrow> t \<in> set rs \<Longrightarrow> find (\<lambda>r. ID r = ID t) rs = Some t"
  by (induction rs) (auto simp: image_iff)

lemma find_replace_ID:
  "ID t' = j \<Longrightarrow>
   find (\<lambda>r. ID r = i) (map (\<lambda>r. if ID r = j then t' else r) rs) =
     (if i = j then (if j \<in> ID ` set rs then Some t' else None) else find (\<lambda>r. ID r = i) rs)"
  by (induction rs) auto

lemma pending_replace:
  "Status t' \<noteq> ''Pending'' \<Longrightarrow>
   pending (map (\<lambda>r. if ID r = j then t' else r) rs) = filter (\<lambda>r. ID r \<noteq> j) (pending rs)"
  by (induction rs) (auto simp: pending_def)

lemma filter_absent_ID: "i \<notin> ID ` set rs \<Longrightarrow> filter (\<lambda>r. ID r \<noteq> i) rs = rs"
  by (induction rs) auto

lemma length_remove_ID:
  "distinct (map ID rs) \<Longrightarrow> t \<in> set rs \<Longrightarrow>
   Suc (length (filter (\<lambda>r. ID r \<noteq> ID t) rs)) = length rs"
  by (induction rs) (auto simp: filter_absent_ID image_iff)

lemma ids_remove_ID:
  "ID ` set (filter (\<lambda>r. ID r \<noteq> i) rs) = ID ` set rs - {i}"
  by auto

lemma distinct_pending: "distinct (map ID rs) \<Longrightarrow> distinct (map ID (pending rs))"
  by (simp add: pending_def distinct_map_filter)

lemma table_ok_nonzero: "table_ok st \<Longrightarrow> \<forall>r \<in> set (rows st). ID r \<noteq> 0"
  by (auto simp: table_ok_def)

lemma table_ok_distinct: "table_ok st \<Longrightarrow> distinct (map ID (rows st))"
  by (simp add: table_ok_def)

lemma table_ok_replace:
  assumes tk: "table_ok st" and r: "r \<in> set (rows st)" "ID r = i"
    and t': "ID t' = i" "Status t' \<noteq> ''Completed'' \<longrightarrow> ImagePath t' = []"
  shows "table_ok (st\<lparr>rows := map (\<lambda>x. if ID x = i then t' else x) (rows st)\<rparr>)"
proof -
  have 1: "distinct (map ID (map (\<lambda>x. if ID x = i then t' else x) (rows st)))"
    using tk t'(1) by (simp add: table_ok_def map_ID_replace_comp)
  have 2: "0 < ID x \<and> ID x \<le> seq st \<and> (Status x \<noteq> ''Completed'' \<longrightarrow> ImagePath x = [])"
    if "x \<in> set (map (\<lambda>x. if ID x = i then t' else x) (rows st))" for x
  proof -
    from set_replace [OF that] have "x = t' \<or> x \<in> set (rows st)" by blast
    with tk r t' show ?thesis by (auto simp: table_ok_def)
  qed
  from 1 2 show ?thesis by (simp add: table_ok_def)
qed

lemma table_ok_empty: "table_ok \<lparr>rows = [], seq = 0\<rparr>"
  by (simp add: table_ok_def)

section \<open>Exclusive claims\<close>

text \<open>
  A claim whose transaction commits marks a pending row of a well-formed table and leaves
  a well-formed table.
\<close>

lemma claim_tx_found:
  assumes tk: "table_ok st"
    and c: "claim_tx ff fs False now st = (err, True, task, st')"
  shows "table_ok st'"
    and "ID task \<in> ID ` set (pending (rows st))"
    and "Status task = ''Processing''"
    and "task \<in> set (rows st')"
    and "pending (rows st') = filter (\<lambda>r. ID r \<noteq> ID task) (pending (rows st))"
    and "Suc (length (pending (rows st'))) = length (pending (rows st))"
    and "\<forall>r \<in> set (rows st). ID r \<noteq> ID task \<longrightarrow> r \<in> set (rows st')"
proof -
  note d = table_ok_distinct [OF tk]
  from claim_tx_cases [OF c table_ok_nonzero [OF tk]] obtain t where
    t: "first_row (pending (rows st)) = Some t"
    and task: "task = t\<lparr>Status := ''Processing'', UpdatedAt := now\<rparr>"
    and st': "st' = st\<lparr>rows := map (\<lambda>r. if ID r = ID t then task else r) (rows st)\<rparr>"
    by auto
  from first_row_mem [OF t] have pm: "t \<in> set (pending (rows st))" .
  then have mem: "t \<in> set (rows st)" and pt: "Status t = ''Pending''" by (simp_all add: pending_set)
  from tk mem pt have img: "ImagePath t = []" by (auto simp: table_ok_def)
  have idt: "ID task = ID t" and stt: "Status task = ''Processing''" using task by simp_all
  have im: "Status task \<noteq> ''Completed'' \<longrightarrow> ImagePath task = []" using task img by simp
  have 1: "table_ok st'" unfolding st' by (rule table_ok_replace [OF tk mem refl idt im])
  have 2: "ID task \<in> ID ` set (pending (rows st))" using pm idt by force
  have 3: "task \<in> set (rows st')" using st' replace_mem [OF mem refl, of task] by simp
  have 4: "pending (rows st') = filter (\<lambda>r. ID r \<noteq> ID task) (pending (rows st))"
    using st' stt idt pending_replace [of task "ID t" "rows st"] by simp
  have 5: "Suc (length (pending (rows st'))) = length (pending (rows st))"
    using length_remove_ID [OF distinct_pending [OF d] pm] 4 idt by simp
  have 6: "\<forall>r \<in> set (rows st). ID r \<noteq> ID task \<longrightarrow> r \<in> set (rows st')"
    using st' idt by auto
  from 1 show "table_ok st'" .
  from 2 show "ID task \<in> ID ` set (pending (rows st))" .
  from stt show "Status task = ''Processing''" .
  from 3 show "task \<in> set (rows st')" .
  from 4 show "pending (rows st') = filter (\<lambda>r. ID r \<noteq> ID task) (pending (rows st))" .
  from 5 show "Suc (length (pending (rows st'))) = length (pending (rows st))" .
  from 6 show "\<forall>r \<in> set (rows st). ID r \<noteq> ID task \<longrightarrow> r \<in> set (rows st')" .
qed

lemma claim_many_keeps:
  assumes "table_ok st" and "\<forall>(c, ff, fs, cf, now) \<in> set cs. \<not> cf"
    and "claim_many cs st = (res, st')"
    and "x \<in> set (rows st)" and "Status x \<noteq> ''Pending''"
  shows "x \<in> set (rows st')"
  using assms
proof (induction cs arbitrary: st res st')
  case Nil
  then show ?case by simp
next
  case (Cons y cs)
  obtain caller ff fs cf now where y: "y = (caller, ff, fs, cf, now)" by (cases y) auto
  with Cons.prems(2) have ncf: "\<not> cf" and rest: "\<forall>(c, ff, fs, cf, now) \<in> set cs. \<not> cf"
    by simp_all
  obtain err found task st1 where c: "claim_tx ff fs cf now st = (err, found, task, st1)"
    by (cases "claim_tx ff fs cf now st") auto
  obtain res1 st2 where m: "claim_many cs st1 = (res1, st2)"
    by (cases "claim_many cs st1") auto
  from Cons.prems(3) y c m have st': "st' = st2" by simp
  have "table_ok st1 \<and> x \<in> set (rows st1)"
  proof (cases found)
    case False
    with claim_tx_unchanged [OF c] have "st1 = st" by simp
    with Cons.prems show ?thesis by simp
  next
    case True
    with c ncf have c': "claim_tx ff fs False now st = (err, True, task, st1)" by simp
    note f = claim_tx_found [OF Cons.prems(1) c']
    note d1 = f(1) and p0 = f(2) and kp = f(7)
    from p0 obtain p where p: "p \<in> set (rows st)" "Status p = ''Pending''" "ID p = ID task"
      by (auto simp: pending_set)
    have "ID x \<noteq> ID p"
    proof
      assume "ID x = ID p"
      with table_ok_distinct [OF Cons.prems(1)] Cons.prems(4) p(1) have "x = p"
        by (meson distinct_map inj_onD)
      with Cons.prems(5) p(2) show False by simp
    qed
    with d1 kp p(3) Cons.prems(4) show ?thesis by auto
  qed
  with Cons.IH [OF _ rest m] Cons.prems(5) st' show ?case by simp
qed

lemma claim_many_ok:
  assumes "table_ok st" and "\<forall>(c, ff, fs, cf, now) \<in> set cs. \<not> cf"
    and "claim_many cs st = (res, st')"
  shows "claims_ok st res st' \<and> table_ok st'"
  using assms
proof (induction cs arbitrary: st res st')
  case Nil
  then show ?case by (simp add: claims_ok_def)
next
  case (Cons x cs)
  obtain caller ff fs cf now where x: "x = (caller, ff, fs, cf, now)" by (cases x) auto
  with Cons.prems(2) have ncf: "\<not> cf" and rest: "\<forall>(c, ff, fs, cf, now) \<in> set cs. \<not> cf"
    by simp_all
  obtain err found task st1 where c: "claim_tx ff fs cf now st = (err, found, task, st1)"
    by (cases "claim_tx ff fs cf now st") auto
  obtain res1 st2 where m: "claim_many cs st1 = (res1, st2)"
    by (cases "claim_many cs st1") auto
  from Cons.prems(3) x c m have res: "res = (if found then [(caller, task)] else []) @ res1"
    and st': "st' = st2" by simp_all
  show ?case
  proof (cases found)
    case False
    with claim_tx_unchanged [OF c] have "st1 = st" by simp
    with Cons.IH [OF _ rest m] Cons.prems(1) res st' False show ?thesis by simp
  next
    case True
    with c ncf have c': "claim_tx ff fs False now st = (err, True, task, st1)" by simp
    note f = claim_tx_found [OF Cons.prems(1) c']
    note d1 = f(1) and p0 = f(2) and sp = f(3) and tm = f(4) and p1 = f(5) and l1 = f(6)
    from Cons.IH [OF d1 rest m] have ih: "claims_ok st1 res1 st2" and d2: "table_ok st2"
      by simp_all
    have ids1: "ID ` set (pending (rows st1)) = ID ` set (pending (rows st)) - {ID task}"
      unfolding p1 by (rule ids_remove_ID)
    from ih have u: "ID ` snd ` set res1 \<union> ID ` set (pending (rows st2)) = ID ` set (pending (rows st1))"
      and dj: "ID ` snd ` set res1 \<inter> ID ` set (pending (rows st2)) = {}"
      and dr: "distinct (map (ID \<circ> snd) res1)"
      and ln: "length res1 + length (pending (rows st2)) = length (pending (rows st1))"
      and al: "\<forall>(c, t) \<in> set res1. Status t = ''Processing'' \<and> t \<in> set (rows st2)"
      by (simp_all add: claims_ok_def)
    have fresh: "ID task \<notin> ID ` snd ` set res1" "ID task \<notin> ID ` set (pending (rows st2))"
      using u ids1 by auto
    have tm2: "task \<in> set (rows st2)"
      using claim_many_keeps [OF d1 rest m tm] sp by simp
    have a1: "distinct (map (ID \<circ> snd) ((caller, task) # res1))"
      using dr fresh(1) by (auto simp: image_iff)
    have a2: "ID ` snd ` set ((caller, task) # res1) \<inter> ID ` set (pending (rows st2)) = {}"
      using dj fresh(2) by auto
    have a3: "ID ` snd ` set ((caller, task) # res1) \<union> ID ` set (pending (rows st2))
                = ID ` set (pending (rows st))"
      using u ids1 p0 by auto
    have a4: "length ((caller, task) # res1) + length (pending (rows st2)) = length (pending (rows st))"
      using ln l1 by simp
    have a5: "\<forall>(c, t) \<in> set ((caller, task) # res1). Status t = ''Processing'' \<and> t \<in> set (rows st2)"
      using al sp tm2 by auto
    from a1 a2 a3 a4 a5 have "claims_ok st ((caller, task) # res1) st2"
      unfolding claims_ok_def by blast
    with d2 res st' True show ?thesis by simp
  qed
qed

lemma claim_many_drains:
  assumes "\<forall>(c, ff, fs, cf, now) \<in> set cs. \<not> ff \<and> \<not> fs \<and> \<not> cf"
    and "length (pending (rows st)) \<le> length cs"
    and "table_ok st" and "claim_many cs st = (res, st')"
  shows "pending (rows st') = []"
  using assms
proof (induction cs arbitrary: st res st')
  case Nil
  then show ?case by simp
next
  case (Cons x cs)
  obtain caller ff fs cf now where x: "x = (caller, ff, fs, cf, now)" by (cases x) auto
  with Cons.prems(1) have nf: "\<not> ff" "\<not> fs" "\<not> cf" by simp_all
  obtain err found task st1 where c: "claim_tx ff fs cf now st = (err, found, task, st1)"
    by (cases "claim_tx ff fs cf now st") auto
  obtain res1 st2 where m: "claim_many cs st1 = (res1, st2)"
    by (cases "claim_many cs st1") auto
  from Cons.prems(4) x c m have st': "st' = st2" by simp
  from Cons.prems(1) have rest: "\<forall>(c, ff, fs, cf, now) \<in> set cs. \<not> ff \<and> \<not> fs \<and> \<not> cf" by simp
  show ?case
  proof (cases found)
    case True
    with c nf have c': "claim_tx ff fs False now st = (err, True, task, st1)" by simp
    note f = claim_tx_found [OF Cons.prems(3) c']
    note d1 = f(1) and l1 = f(6)
    from l1 Cons.prems(2) have "length (pending (rows st1)) \<le> length cs" by simp
    from Cons.IH [OF rest this d1 m] st' show ?thesis by simp
  next
    case False
    have "pending (rows st) = []"
    proof (rule ccontr)
      assume "pending (rows st) \<noteq> []"
      then obtain t where t: "first_row (pending (rows st)) = Some t"
        by (cases "first_row (pending (rows st))") (auto simp: first_row_None)
      from first_row_mem [OF t] have mem: "t \<in> set (rows st)" by (simp add: pending_set)
      with table_ok_nonzero [OF Cons.prems(3)] have z: "ID t \<noteq> 0" by blast
      from mem have "ID t \<in> ID ` set (rows st)" by (rule imageI)
      with t z have "fst (snd (claim_tx ff fs cf now st))"
        using nf by (simp add: claim_tx_def db_First_def db_Save_def Let_def)
      with c False show False by simp
    qed
    moreover from False claim_tx_unchanged [OF c] have "st1 = st" by simp
    ultimately have "length (pending (rows st1)) \<le> length cs" "table_ok st1"
      using Cons.prems(3) by simp_all
    from Cons.IH [OF rest this m] st' show ?thesis by simp
  qed
qed

text \<open>
  The claiming transaction selects and marks in one transaction, taken here as one step.
  As long as every commit succeeds it keeps the callers apart: whatever the number of
  callers, the order of their attempts and the storage errors of their selects and saves,
  over a well-formed table no task is handed out twice; the tasks handed out and the
  tasks still pending are disjoint and together are exactly the tasks pending at the
  start; every task handed out is stored as \<open>Processing\<close>. With at least as many attempts
  as pending tasks and no storage error at all, every task pending at the start is handed
  to exactly one caller.
\<close>

lemma committed_claims_exclusive:
  assumes "table_ok st" and "\<forall>(c, ff, fs, cf, now) \<in> set cs. \<not> cf"
    and "claim_many cs st = (res, st')"
  shows "distinct (map (ID \<circ> snd) res) \<and>
         ID ` snd ` set res \<inter> ID ` set (pending (rows st')) = {} \<and>
         ID ` snd ` set res \<union> ID ` set (pending (rows st')) = ID ` set (pending (rows st)) \<and>
         length res + length (pending (rows st')) = length (pending (rows st)) \<and>
         (\<forall>(c, t) \<in> set res. Status t = ''Processing'' \<and> t \<in> set (rows st')) \<and>
         ((\<forall>(c, ff, fs, cf, now) \<in> set cs. \<not> ff \<and> \<not> fs) \<and> length (pending (rows st)) \<le> length cs
            \<longrightarrow> length res = length (pending (rows st)) \<and>
                ID ` snd ` set res = ID ` set (pending (rows st)))"
proof -
  from claim_many_ok [OF assms] have ok: "claims_ok st res st'" by simp
  note k = ok [unfolded claims_ok_def]
  note 1 = k [THEN conjunct1]
    and 2 = k [THEN conjunct2, THEN conjunct1]
    and 3 = k [THEN conjunct2, THEN conjunct2, THEN conjunct1]
    and 4 = k [THEN conjunct2, THEN conjunct2, THEN conjunct2, THEN conjunct1]
    and 5 = k [THEN conjunct2, THEN conjunct2, THEN conjunct2, THEN conjunct2]
  have 6: "(\<forall>(c, ff, fs, cf, now) \<in> set cs. \<not> ff \<and> \<not> fs) \<and> length (pending (rows st)) \<le> length cs
            \<longrightarrow> length res = length (pending (rows st)) \<and>
                ID ` snd ` set res = ID ` set (pending (rows st))"
  proof
    assume a: "(\<forall>(c, ff, fs, cf, now) \<in> set cs. \<not> ff \<and> \<not> fs) \<and> length (pending (rows st)) \<le> length cs"
    with assms(2) have a1: "\<forall>(c, ff, fs, cf, now) \<in> set cs. \<not> ff \<and> \<not> fs \<and> \<not> cf"
      by fastforce
    from a have a2: "length (pending (rows st)) \<le> length cs" by simp
    from claim_many_drains [OF a1 a2 assms(1,3)] have e: "pending (rows st') = []" .
    from 3 4 show "length res = length (pending (rows st)) \<and>
                ID ` snd ` set res = ID ` set (pending (rows st))"
      unfolding e by simp
  qed
  from 1 2 3 4 5 6 show ?thesis by (intro conjI)
qed

lemma committed_claims_example:
  "map (\<lambda>(c, t). (c, ID t)) (fst (claim_many ex_callers ex_store)) = [(1, 3), (2, 4), (3, 2)]"
  by (simp add: ev)

text \<open>
  Claim C1 (claim exclusivity). The claim does not hold of the program. In the
  transactional \<open>taskWorker\<close> the flag \<open>found\<close> is set before the commit and tested
  whatever the error of the transaction is. Of two callers over the example table, let
  the commit of the first fail: the first caller leaves the transaction with \<open>found\<close>
  true and task 3 in its hands, the table is rolled back, and the second caller selects
  the same row and is handed task 3 as well, so two claims succeed for one task. The
  earlier \<open>taskWorker\<close> of \<open>server.go\<close> selects and marks outside any transaction: a second
  caller that selects before the first has marked is handed the same row. The one worker
  that the program starts is handed task 3 twice when the commit of its claim fails and
  the save of the outcome fails as well.
\<close>

theorem claim_handed_out_twice:
  "map (\<lambda>(c, t). (c, ID t, Status t)) (fst (claim_many ex_race ex_store)) =
     [(1, 3, ''Processing''), (2, 3, ''Processing'')] \<and>
   claim_tx False False True 10 ex_store =
     (Some ErrStorage, True, (ex_task 3 ''owl'' ''Processing'' 7)\<lparr>UpdatedAt := 10\<rparr>, ex_store) \<and>
   old_select False ex_store = Inr (ex_task 3 ''owl'' ''Pending'' 7) \<and>
   map_option (\<lambda>(a, b, st). (ID a, Status a, ID b, Status b)) (old_two_callers 10 11 ex_store) =
     Some (3, ''Processing'', 3, ''Processing'') \<and>
   worker (run ex_lost_commit (boot ex_store)) =
     Holding ((ex_task 3 ''owl'' ''Processing'' 7)\<lparr>UpdatedAt := 10\<rparr>) \<and>
   worker (run (ex_lost_commit @ [Finish (Some ''boom'') 100 True 11, Notify, Poll False False False 12])
             (boot ex_store)) =
     Claimed ((ex_task 3 ''owl'' ''Processing'' 7)\<lparr>UpdatedAt := 12\<rparr>)"
  by (simp add: old_select_def old_mark_def old_two_callers_def ev)

section \<open>The order of claims\<close>

text \<open>
  Claim C3 (first in, first out, with tie-break). When a pending row exists, the row the
  claiming transaction selects is a pending row whose pair of creation time and key is
  the least among the pending rows: no pending row was created earlier, and among those
  created at the same time none has a smaller key. The transaction hands out a task
  exactly when neither the select nor the save reports a storage error. The task handed
  out is that row, marked \<open>Processing\<close>, as \<open>Save\<close> leaves it; the table is then as
  \<open>Save\<close> leaves it when the commit succeeds, and as before, with the error of the commit
  as the result, when the commit fails. For a row whose key is not zero, as are all keys
  that the counter gives, the task handed out is the row with the new status and time of
  update, and after a commit the table holds it in the place of the row.
\<close>

theorem ClaimNext_fifo:
  assumes "pending (rows st) \<noteq> []"
  shows "\<exists>t \<in> set (rows st).
           Status t = ''Pending'' \<and>
           (\<forall>u \<in> set (rows st). Status u = ''Pending'' \<longrightarrow>
              CreatedAt t < CreatedAt u \<or> (CreatedAt t = CreatedAt u \<and> ID t \<le> ID u)) \<and>
           db_First False st = Inr t \<and>
           (\<forall>first_fails save_fails commit_fails now.
              case claim_tx first_fails save_fails commit_fails now st of
                (err, found, task, st') \<Rightarrow>
                  (found \<longleftrightarrow> \<not> first_fails \<and> \<not> save_fails) \<and>
                  (found \<longrightarrow>
                     task = fst (snd (db_Save False now (t\<lparr>Status := ''Processing''\<rparr>) st)) \<and>
                     (if commit_fails then err = Some ErrStorage \<and> st' = st
                      else err = None \<and>
                           st' = snd (snd (db_Save False now (t\<lparr>Status := ''Processing''\<rparr>) st)))) \<and>
                  (found \<and> ID t \<noteq> 0 \<longrightarrow>
                     task = t\<lparr>Status := ''Processing'', UpdatedAt := now\<rparr> \<and>
                     (if commit_fails then err = Some ErrStorage \<and> st' = st
                      else err = None \<and>
                           rows st' = map (\<lambda>r. if ID r = ID t then task else r) (rows st))))"
proof -
  from assms obtain t where t: "first_row (pending (rows st)) = Some t"
    by (cases "first_row (pending (rows st))") (auto simp: first_row_None)
  from first_row_mem [OF t] have mem: "t \<in> set (rows st)" and st: "Status t = ''Pending''"
    by (auto simp: pending_set)
  have least: "key_le t u" if "u \<in> set (rows st)" "Status u = ''Pending''" for u
    using first_row_least [OF t, of u] that by (simp add: pending_set)
  have first: "db_First False st = Inr t"
    using t by (simp add: db_First_def)
  from mem have ids: "ID t \<in> ID ` set (rows st)" by (rule imageI)
  have tx: "case claim_tx ff fs cf now st of
                (err, found, task, st') \<Rightarrow>
                  (found \<longleftrightarrow> \<not> ff \<and> \<not> fs) \<and>
                  (found \<longrightarrow>
                     task = fst (snd (db_Save False now (t\<lparr>Status := ''Processing''\<rparr>) st)) \<and>
                     (if cf then err = Some ErrStorage \<and> st' = st
                      else err = None \<and>
                           st' = snd (snd (db_Save False now (t\<lparr>Status := ''Processing''\<rparr>) st)))) \<and>
                  (found \<and> ID t \<noteq> 0 \<longrightarrow>
                     task = t\<lparr>Status := ''Processing'', UpdatedAt := now\<rparr> \<and>
                     (if cf then err = Some ErrStorage \<and> st' = st
                      else err = None \<and>
                           rows st' = map (\<lambda>r. if ID r = ID t then task else r) (rows st)))"
    for ff fs cf now
    using t ids
    by (cases ff; cases fs; cases cf; cases "ID t = 0")
       (simp_all add: claim_tx_def db_First_def db_Save_def db_Create_def Let_def)
  have l: "\<forall>u \<in> set (rows st). Status u = ''Pending'' \<longrightarrow>
              CreatedAt t < CreatedAt u \<or> (CreatedAt t = CreatedAt u \<and> ID t \<le> ID u)"
    using least by (auto simp: key_le_def)
  have txa: "\<forall>first_fails save_fails commit_fails now.
              case claim_tx first_fails save_fails commit_fails now st of
                (err, found, task, st') \<Rightarrow>
                  (found \<longleftrightarrow> \<not> first_fails \<and> \<not> save_fails) \<and>
                  (found \<longrightarrow>
                     task = fst (snd (db_Save False now (t\<lparr>Status := ''Processing''\<rparr>) st)) \<and>
                     (if commit_fails then err = Some ErrStorage \<and> st' = st
                      else err = None \<and>
                           st' = snd (snd (db_Save False now (t\<lparr>Status := ''Processing''\<rparr>) st)))) \<and>
                  (found \<and> ID t \<noteq> 0 \<longrightarrow>
                     task = t\<lparr>Status := ''Processing'', UpdatedAt := now\<rparr> \<and>
                     (if commit_fails then err = Some ErrStorage \<and> st' = st
                      else err = None \<and>
                           rows st' = map (\<lambda>r. if ID r = ID t then task else r) (rows st)))"
    by (intro allI) (rule tx)
  from st l first txa show ?thesis by (intro bexI [OF _ mem] conjI)
qed

theorem ClaimNext_fifo_witness:
  "pending (rows ex_store) \<noteq> [] \<and>
   db_First False ex_store = Inr (ex_task 3 ''owl'' ''Pending'' 7) \<and>
   fst (snd (snd (claim_tx False False False 12 ex_store))) =
     (ex_task 3 ''owl'' ''Processing'' 7)\<lparr>UpdatedAt := 12\<rparr> \<and>
   claim_tx False False True 12 ex_store =
     (Some ErrStorage, True, (ex_task 3 ''owl'' ''Processing'' 7)\<lparr>UpdatedAt := 12\<rparr>, ex_store)"
proof -
  have h: "pending (rows ex_store) \<noteq> []" by (simp add: ev)
  from ClaimNext_fifo [OF h] obtain t where
    t: "db_First False ex_store = Inr t" and
    tx: "\<forall>first_fails save_fails commit_fails now.
              case claim_tx first_fails save_fails commit_fails now ex_store of
                (err, found, task, st') \<Rightarrow>
                  (found \<longleftrightarrow> \<not> first_fails \<and> \<not> save_fails) \<and>
                  (found \<longrightarrow>
                     task = fst (snd (db_Save False now (t\<lparr>Status := ''Processing''\<rparr>) ex_store)) \<and>
                     (if commit_fails then err = Some ErrStorage \<and> st' = ex_store
                      else err = None \<and>
                           st' = snd (snd (db_Save False now (t\<lparr>Status := ''Processing''\<rparr>) ex_store)))) \<and>
                  (found \<and> ID t \<noteq> 0 \<longrightarrow>
                     task = t\<lparr>Status := ''Processing'', UpdatedAt := now\<rparr> \<and>
                     (if commit_fails then err = Some ErrStorage \<and> st' = ex_store
                      else err = None \<and>
                           rows st' = map (\<lambda>r. if ID r = ID t then task else r) (rows ex_store)))"
    by blast
  have e: "db_First False ex_store = Inr (ex_task 3 ''owl'' ''Pending'' 7)" by (simp add: ev)
  with t have t3: "t = ex_task 3 ''owl'' ''Pending'' 7" by simp
  from tx [rule_format, where first_fails = False and save_fails = False and commit_fails = False
      and now = 12] t3
  have a: "fst (snd (snd (claim_tx False False False 12 ex_store))) =
             (ex_task 3 ''owl'' ''Processing'' 7)\<lparr>UpdatedAt := 12\<rparr>"
    by (auto simp: ex_task_def split: prod.splits)
  from tx [rule_format, where first_fails = False and save_fails = False and commit_fails = True
      and now = 12] t3
  have b: "claim_tx False False True 12 ex_store =
     (Some ErrStorage, True, (ex_task 3 ''owl'' ''Processing'' 7)\<lparr>UpdatedAt := 12\<rparr>, ex_store)"
    by (auto simp: ex_task_def split: prod.splits)
  from h e a b show ?thesis by simp
qed

section \<open>What every reachable state satisfies\<close>

lemma held_db: "db w' = db w \<Longrightarrow> held w' t = held w t"
  by (simp add: held_def)

lemma consistent_Connect: "consistent w \<Longrightarrow> consistent (step (Connect ws uf) w)"
  by (auto simp: consistent_def held_def serveWs_register_def logf_def split: option.splits)

lemma consistent_Dispatch: "consistent w \<Longrightarrow> consistent (step (Dispatch wfail) w)"
  by (cases "broadcast w") (auto simp: consistent_def held_def handleMessages_step_def)

lemma consistent_Reply: "consistent w \<Longrightarrow> consistent (step (Reply ws wfl) w)"
  by (auto simp: consistent_def held_def serveWs_reply_def split: option.splits session_pc.splits)

lemma consistent_Send: "consistent w \<Longrightarrow> consistent (step (Send ws) w)"
  by (auto simp: consistent_def held_def serveWs_send_def publish_def
        split: option.splits session_pc.splits)

lemma consistent_Notify: "consistent w \<Longrightarrow> consistent (step Notify w)"
  by (auto simp: consistent_def held_def taskWorker_notify_def notifyUpdate_def publish_def
        split: worker_pc.splits)

lemma create_task_step:
  assumes "session w ws = Some Reading" and "msg_Type msg = ''create_task''"
  shows "\<exists>t. Prompt t = msg_Prompt msg \<and> Status t = ''Pending'' \<and> ImagePath t = [] \<and>
             ID t = (if cf then 0 else Suc (seq (db w))) \<and>
             step (Read ws (Inr msg) ff cf now) w =
               w\<lparr>db := (if cf then db w
                         else (db w)\<lparr>rows := rows (db w) @ [t], seq := Suc (seq (db w))\<rparr>),
                 session := (session w)(ws \<mapsto> Sending (WSResponse ''new_task'' (TaskData t)))\<rparr>"
proof -
  define t where "t = \<lparr>ID = (if cf then 0 else Suc (seq (db w))), Prompt = msg_Prompt msg,
                        Status = ''Pending'', ImagePath = [], CreatedAt = now, UpdatedAt = now\<rparr>"
  have p: "Prompt t = msg_Prompt msg \<and> Status t = ''Pending'' \<and> ImagePath t = [] \<and>
             ID t = (if cf then 0 else Suc (seq (db w)))"
    by (simp add: t_def)
  have s: "step (Read ws (Inr msg) ff cf now) w =
               w\<lparr>db := (if cf then db w
                         else (db w)\<lparr>rows := rows (db w) @ [t], seq := Suc (seq (db w))\<rparr>),
                 session := (session w)(ws \<mapsto> Sending (WSResponse ''new_task'' (TaskData t)))\<rparr>"
    using assms
    by (cases cf)
       (simp_all add: serveWs_read_def db_Create_def auto_time_def zeroTask_def Let_def t_def)
  from p s show ?thesis by blast
qed

lemma table_ok_append:
  assumes "table_ok st" and "ID t = Suc (seq st)" and "Status t \<noteq> ''Completed'' \<longrightarrow> ImagePath t = []"
  shows "table_ok (st\<lparr>rows := rows st @ [t], seq := Suc (seq st)\<rparr>)"
  using assms by (fastforce simp: table_ok_def)

lemma consistent_Read: "consistent w \<Longrightarrow> consistent (step (Read ws rd ff cf now) w)"
proof -
  assume i: "consistent w"
  show ?thesis
  proof (cases "session w ws = Some Reading")
    case False
    with i show ?thesis by (auto split: option.splits session_pc.splits)
  next
    case True
    then have st: "step (Read ws rd ff cf now) w = serveWs_read ws rd ff cf now w" by simp
    show ?thesis
    proof (cases rd)
      case (Inl e)
      with i show ?thesis
        unfolding st by (auto simp: consistent_def held_def serveWs_read_def)
    next
      case (Inr msg)
      consider (h) "msg_Type msg = ''get_history''"
        | (c) "msg_Type msg \<noteq> ''get_history''" "msg_Type msg = ''create_task''"
        | (o) "msg_Type msg \<noteq> ''get_history''" "msg_Type msg \<noteq> ''create_task''" by blast
      then show ?thesis
      proof cases
        case h
        with Inr i show ?thesis
          unfolding st by (auto simp: consistent_def held_def serveWs_read_def history_reply_def)
      next
        case c
        from create_task_step [OF True c(2), of cf ff now] obtain t where
          t: "Status t = ''Pending''" "ImagePath t = []" "ID t = (if cf then 0 else Suc (seq (db w)))"
          and s: "step (Read ws (Inr msg) ff cf now) w =
               w\<lparr>db := (if cf then db w
                         else (db w)\<lparr>rows := rows (db w) @ [t], seq := Suc (seq (db w))\<rparr>),
                 session := (session w)(ws \<mapsto> Sending (WSResponse ''new_task'' (TaskData t)))\<rparr>"
          by blast
        from i have tk: "table_ok (db w)" by (simp add: consistent_def)
        have tk': "table_ok (if cf then db w
                         else (db w)\<lparr>rows := rows (db w) @ [t], seq := Suc (seq (db w))\<rparr>)"
          using tk t table_ok_append [OF tk, of t] by simp
        have hd: "held (w\<lparr>db := (if cf then db w
                         else (db w)\<lparr>rows := rows (db w) @ [t], seq := Suc (seq (db w))\<rparr>),
                 session := (session w)(ws \<mapsto> Sending (WSResponse ''new_task'' (TaskData t)))\<rparr>) u"
          if "held w u" for u
          using that by (auto simp: held_def)
        from i tk' hd show ?thesis
          unfolding Inr s consistent_def by auto
      next
        case o
        with Inr i show ?thesis unfolding st by (simp add: serveWs_read_def)
      qed
    qed
  qed
qed

lemma claim_step:
  assumes "worker w = Idle"
    and "claim_tx ff fs cf now (db w) = (err, found, task, st')"
  shows "step (Poll ff fs cf now) w =
           (if found
            then w\<lparr>db := st',
                   effects := effects w @ (if cf then [LogDatabaseError ErrStorage] else []),
                   worker := Claimed task\<rparr>
            else w\<lparr>effects := effects w @
                     (if err = Some ErrRecordNotFound then [] else [LogDatabaseError (the err)]) @
                     [Sleep 2]\<rparr>)"
proof (cases found)
  case False
  with claim_tx_unchanged [OF assms(2)] obtain e where "st' = db w" "err = Some e" by auto
  with assms False show ?thesis
    by (simp add: taskWorker_claim_def logf_def)
next
  case True
  with assms(2) have "(cf \<and> err = Some ErrStorage) \<or> (\<not> cf \<and> err = None)"
    by (auto simp: claim_tx_def db_First_def split: sum.splits option.splits prod.splits if_splits)
  with assms True show ?thesis
    by (auto simp: taskWorker_claim_def logf_def)
qed

lemma consistent_Poll: "consistent w \<Longrightarrow> consistent (step (Poll ff fs cf now) w)"
proof -
  assume i: "consistent w"
  show ?thesis
  proof (cases "worker w = Idle")
    case False
    with i show ?thesis by (auto split: worker_pc.splits)
  next
    case True
    obtain err found task st' where c: "claim_tx ff fs cf now (db w) = (err, found, task, st')"
      by (cases "claim_tx ff fs cf now (db w)") auto
    note stp = claim_step [OF True c]
    from i have tk: "table_ok (db w)" by (simp add: consistent_def)
    from claim_tx_cases [OF c table_ok_nonzero [OF tk]] show ?thesis
    proof (elim disjE conjE exE)
      assume "\<not> found" "st' = db w"
      with i True show ?thesis
        unfolding stp by (auto simp: consistent_def held_def)
    next
      fix t
      assume f: "found"
        and t: "first_row (pending (rows (db w))) = Some t"
        and task: "task = t\<lparr>Status := ''Processing'', UpdatedAt := now\<rparr>"
        and r: "if cf then err = Some ErrStorage \<and> st' = db w
                else err = None \<and>
                     st' = (db w)\<lparr>rows := map (\<lambda>r. if ID r = ID t then task else r) (rows (db w))\<rparr>"
      from first_row_mem [OF t] have mem: "t \<in> set (rows (db w))" and pt: "Status t = ''Pending''"
        by (auto simp: pending_set)
      from tk mem pt have img: "ImagePath t = []" by (auto simp: table_ok_def)
      have idt: "ID task = ID t" using task by simp
      have im: "Status task \<noteq> ''Completed'' \<longrightarrow> ImagePath task = []" using task img by simp
      have tk': "table_ok st'"
        using r tk table_ok_replace [OF tk mem refl idt im] by (auto split: if_splits)
      have 5: "\<exists>r \<in> set (rows st'). ID r = ID task \<and> (Status r = ''Pending'' \<or> Status r = ''Processing'')"
      proof (cases cf)
        case True
        with r mem pt idt show ?thesis by (intro bexI [of _ t]) simp_all
      next
        case False
        with r have "task \<in> set (rows st')" using replace_mem [OF mem refl, of task] by simp
        with task show ?thesis by (intro bexI [of _ task]) simp_all
      qed
      have 6: "Status task = ''Processing''" "ImagePath task = []"
        using task img by simp_all
      from i tk' 5 6 f show ?thesis
        unfolding stp consistent_def held_def by simp
    qed
  qed
qed

lemma generate_outcome:
  assumes r: "r \<in> set (rows (db w))" "ID r = ID t" "ID t \<noteq> 0"
  shows "\<exists>t1. ID t1 = ID t \<and> Prompt t1 = Prompt t \<and> CreatedAt t1 = CreatedAt t \<and>
           (case cmd_err of
              Some out \<Rightarrow> Status t1 = ''Failed'' \<and> ImagePath t1 = ImagePath t
            | None \<Rightarrow> Status t1 = ''Completed'') \<and>
           UpdatedAt t1 = now \<and>
           worker (taskWorker_generate cmd_err unix fs now t w) = Finished t1 \<and>
           db (taskWorker_generate cmd_err unix fs now t w) =
             (if fs then db w
              else (db w)\<lparr>rows := map (\<lambda>x. if ID x = ID t then t1 else x) (rows (db w))\<rparr>)"
proof -
  define t0 where "t0 = (case runPythonZImage cmd_err unix (Prompt t) (ID t) of
                     Inl genErr \<Rightarrow> t\<lparr>Status := ''Failed''\<rparr>
                   | Inr imagePath \<Rightarrow> t\<lparr>Status := ''Completed'', ImagePath := imagePath\<rparr>)"
  define t1 where "t1 = t0\<lparr>UpdatedAt := now\<rparr>"
  define w2 where "w2 = (case runPythonZImage cmd_err unix (Prompt t) (ID t) of
                  Inl genErr \<Rightarrow> logf (LogFailed (ID t) genErr) (logf (LogProcessing (ID t) (Prompt t)) w)
                | Inr imagePath \<Rightarrow> logf (LogCompleted (ID t)) (logf (LogProcessing (ID t) (Prompt t)) w))"
  have i0: "ID t0 = ID t" by (auto simp: t0_def split: sum.splits)
  have a: "ID t1 = ID t" "Prompt t1 = Prompt t" "CreatedAt t1 = CreatedAt t" "UpdatedAt t1 = now"
    by (auto simp: t0_def t1_def split: sum.splits)
  have b: "case cmd_err of
              Some out \<Rightarrow> Status t1 = ''Failed'' \<and> ImagePath t1 = ImagePath t
            | None \<Rightarrow> Status t1 = ''Completed''"
    by (auto simp: t0_def t1_def runPythonZImage_def split: option.splits)
  have dbw: "db w2 = db w" by (auto simp: w2_def logf_def split: sum.splits)
  have g: "taskWorker_generate cmd_err unix fs now t w =
             (case db_Save fs now t0 (db w2) of (err, task2, st) \<Rightarrow> w2\<lparr>db := st, worker := Finished task2\<rparr>)"
    by (simp add: taskWorker_generate_def Let_def t0_def w2_def)
  have sv: "db_Save fs now t0 (db w2) =
           (if fs then Some ErrStorage else None, t1,
            if fs then db w
            else (db w)\<lparr>rows := map (\<lambda>x. if ID x = ID t then t1 else x) (rows (db w))\<rparr>)"
    using db_Save_row [of r "db w" fs now t0] r i0 by (simp add: dbw t1_def)
  have c: "worker (taskWorker_generate cmd_err unix fs now t w) = Finished t1"
    unfolding g sv by simp
  have d: "db (taskWorker_generate cmd_err unix fs now t w) =
             (if fs then db w
              else (db w)\<lparr>rows := map (\<lambda>x. if ID x = ID t then t1 else x) (rows (db w))\<rparr>)"
    unfolding g sv by simp
  from a b c d show ?thesis by blast
qed

lemma generate_frame:
  "clients (taskWorker_generate cmd_err unix fs now t w) = clients w"
  "broadcast (taskWorker_generate cmd_err unix fs now t w) = broadcast w"
  "sent (taskWorker_generate cmd_err unix fs now t w) = sent w"
  "closed (taskWorker_generate cmd_err unix fs now t w) = closed w"
  "session (taskWorker_generate cmd_err unix fs now t w) = session w"
  by (auto simp: taskWorker_generate_def logf_def Let_def split: sum.splits prod.splits)

lemma held_row:
  assumes "table_ok (db w)" and "held w t"
  obtains r where "r \<in> set (rows (db w))" "ID r = ID t" "ID t \<noteq> 0"
    "Status r = ''Pending'' \<or> Status r = ''Processing''" "ImagePath t = []"
  using assms by (auto simp: held_def table_ok_def)

lemma consistent_Finish: "consistent w \<Longrightarrow> consistent (step (Finish cmd_err unix fs now) w)"
proof -
  assume i: "consistent w"
  show ?thesis
  proof (cases "worker w")
    case (Holding t)
    with i have h: "held w t" and tk: "table_ok (db w)" by (simp_all add: consistent_def)
    from held_row [OF tk h] obtain r where r: "r \<in> set (rows (db w))" "ID r = ID t" "ID t \<noteq> 0"
      and img: "ImagePath t = []" by blast
    from generate_outcome [OF r, where cmd_err = cmd_err and fs = fs and unix = unix and now = now] obtain t1 where
      t1: "ID t1 = ID t"
        "case cmd_err of
              Some out \<Rightarrow> Status t1 = ''Failed'' \<and> ImagePath t1 = ImagePath t
            | None \<Rightarrow> Status t1 = ''Completed''"
      and wk: "worker (taskWorker_generate cmd_err unix fs now t w) = Finished t1"
      and dbg: "db (taskWorker_generate cmd_err unix fs now t w) =
             (if fs then db w
              else (db w)\<lparr>rows := map (\<lambda>x. if ID x = ID t then t1 else x) (rows (db w))\<rparr>)"
      by blast
    have p: "Status t1 \<noteq> ''Completed'' \<longrightarrow> ImagePath t1 = []"
      using t1(2) img by (auto split: option.splits)
    have tk': "table_ok (db (taskWorker_generate cmd_err unix fs now t w))"
      unfolding dbg using table_ok_replace [OF tk r(1,2) t1(1) p] tk by simp
    have st: "step (Finish cmd_err unix fs now) w = taskWorker_generate cmd_err unix fs now t w"
      using Holding by simp
    from i tk' wk show ?thesis
      unfolding st consistent_def generate_frame by simp
  qed (use i in simp_all)
qed

lemma consistent_step: "consistent w \<Longrightarrow> consistent (step a w)"
  by (cases a)
     (simp_all only: consistent_Connect consistent_Read consistent_Reply consistent_Send
        consistent_Dispatch consistent_Poll consistent_Notify consistent_Finish)

lemma consistent_run: "consistent w \<Longrightarrow> consistent (run as w)"
  by (induction as arbitrary: w) (simp_all add: consistent_step)

lemma consistent_boot: "table_ok st \<Longrightarrow> consistent (boot st)"
  by (simp add: consistent_def boot_def)

lemma run_append: "run (as @ bs) w = run bs (run as w)"
  by (induction as arbitrary: w) simp_all


section \<open>Status changes\<close>

lemma status_change_ok_refl: "status_change_ok x x"
  by (simp add: status_change_ok_def split: option.splits)

lemma status_of_replace:
  assumes "distinct (map ID rs)" and "t \<in> set rs" and "ID t' = ID t"
  shows "status_of (st\<lparr>rows := map (\<lambda>r. if ID r = ID t then t' else r) rs\<rparr>) i =
           (if i = ID t then Some (Status t') else status_of (st\<lparr>rows := rs\<rparr>) i)"
  using assms by (auto simp: status_of_def find_replace_ID)

lemma status_of_rows: "status_of (st\<lparr>rows := rows st\<rparr>) i = status_of st i"
  by (simp add: status_of_def)

lemma db_unchanged:
  "db (step (Connect ws uf) w) = db w"
  "db (step (Reply ws wfl) w) = db w"
  "db (step (Send ws) w) = db w"
  "db (step (Dispatch wfail) w) = db w"
  "db (step Notify w) = db w"
  by (auto simp: serveWs_register_def logf_def serveWs_reply_def serveWs_send_def publish_def
        handleMessages_step_def taskWorker_notify_def notifyUpdate_def
        split: option.splits session_pc.splits list.splits worker_pc.splits)

text \<open>
  What a step does to the stored status of a task, in any state the server reaches: it
  leaves it, creates the task as \<open>Pending\<close>, or moves it along a legal edge; or, when the
  worker saves the outcome of a task whose claim was not committed, it moves it from
  \<open>Pending\<close> to \<open>Completed\<close> or \<open>Failed\<close>.
\<close>

lemma status_step:
  assumes i: "consistent w"
  shows "status_change_ok (status_of (db w) i) (status_of (db (step a w)) i) \<or>
         ((\<exists>cmd_err unix fs now. a = Finish cmd_err unix fs now) \<and>
          status_of (db w) i = Some ''Pending'' \<and>
          (status_of (db (step a w)) i = Some ''Completed'' \<or>
           status_of (db (step a w)) i = Some ''Failed''))"
proof (cases a)
  case (Read ws rd ff cf now)
  show ?thesis
  proof (cases "session w ws = Some Reading \<and> (\<exists>m. rd = Inr m \<and> msg_Type m = ''create_task'' \<and> \<not> cf)")
    case False
    with Read have "db (step a w) = db w"
      by (cases rd)
         (auto simp: serveWs_read_def db_Create_def Let_def split: option.splits session_pc.splits)
    then show ?thesis by (simp add: status_change_ok_refl)
  next
    case True
    then obtain m where m: "rd = Inr m" "msg_Type m = ''create_task''" "\<not> cf"
      and rdg: "session w ws = Some Reading" by blast
    from create_task_step [OF rdg m(2), of cf ff now] m(3) obtain t where
      st: "Status t = ''Pending''"
      and s: "step (Read ws (Inr m) ff cf now) w =
               w\<lparr>db := (db w)\<lparr>rows := rows (db w) @ [t], seq := Suc (seq (db w))\<rparr>,
                 session := (session w)(ws \<mapsto> Sending (WSResponse ''new_task'' (TaskData t)))\<rparr>"
      by auto
    have "status_change_ok (status_of (db w) i) (status_of (db (step a w)) i)"
      unfolding Read m(1) s using st
      by (auto simp: status_of_def find_append_ID status_change_ok_def split: option.splits)
    then show ?thesis ..
  qed
next
  case (Poll ff fs cf now)
  show ?thesis
  proof (cases "worker w = Idle")
    case False
    with Poll have "db (step a w) = db w" by (auto split: worker_pc.splits)
    then show ?thesis by (simp add: status_change_ok_refl)
  next
    case True
    obtain err found task st' where c: "claim_tx ff fs cf now (db w) = (err, found, task, st')"
      by (cases "claim_tx ff fs cf now (db w)") auto
    from i have tk: "table_ok (db w)" by (simp add: consistent_def)
    note d = table_ok_distinct [OF tk]
    have db': "db (step a w) = (if found then st' else db w)"
      unfolding Poll claim_step [OF True c] by simp
    from claim_tx_cases [OF c table_ok_nonzero [OF tk]]
    have "status_change_ok (status_of (db w) i) (status_of (db (step a w)) i)"
    proof (elim disjE conjE exE)
      assume "st' = db w"
      with db' show ?thesis by (simp add: status_change_ok_refl)
    next
      fix t
      assume t: "first_row (pending (rows (db w))) = Some t"
        and task: "task = t\<lparr>Status := ''Processing'', UpdatedAt := now\<rparr>"
        and r: "if cf then err = Some ErrStorage \<and> st' = db w
                else err = None \<and>
                     st' = (db w)\<lparr>rows := map (\<lambda>r. if ID r = ID t then task else r) (rows (db w))\<rparr>"
        and f: "found"
      show ?thesis
      proof (cases cf)
        case True
        with r db' show ?thesis by (simp add: status_change_ok_refl)
      next
        case False
        with r have st': "st' = (db w)\<lparr>rows := map (\<lambda>r. if ID r = ID t then task else r) (rows (db w))\<rparr>"
          by simp
        from first_row_mem [OF t] have mem: "t \<in> set (rows (db w))" and pt: "Status t = ''Pending''"
          by (auto simp: pending_set)
        have idt: "ID task = ID t" using task by simp
        have new: "status_of st' i = (if i = ID t then Some (Status task) else status_of (db w) i)"
          unfolding st' using status_of_replace [OF d mem idt, of "db w" i]
          by (simp add: status_of_rows)
        have old: "status_of (db w) (ID t) = Some ''Pending''"
          using find_distinct_ID [OF d mem] pt by (simp add: status_of_def)
        from db' f have db'': "db (step a w) = st'" by simp
        show ?thesis
          unfolding db'' new using old task
          by (auto simp: status_change_ok_def legal_edge_def status_change_ok_refl split: option.splits)
      qed
    qed
    then show ?thesis ..
  qed
next
  case (Finish cmd_err unix fs now)
  show ?thesis
  proof (cases "worker w")
    case (Holding t)
    with i have h: "held w t" and tk: "table_ok (db w)" by (simp_all add: consistent_def)
    from held_row [OF tk h] obtain r where r: "r \<in> set (rows (db w))" "ID r = ID t" "ID t \<noteq> 0"
      and sr: "Status r = ''Pending'' \<or> Status r = ''Processing''" by blast
    note d = table_ok_distinct [OF tk]
    from generate_outcome [OF r, where cmd_err = cmd_err and fs = fs and unix = unix and now = now] obtain t1 where
      t1: "ID t1 = ID t"
        "case cmd_err of
              Some out \<Rightarrow> Status t1 = ''Failed'' \<and> ImagePath t1 = ImagePath t
            | None \<Rightarrow> Status t1 = ''Completed''"
      and dbg: "db (taskWorker_generate cmd_err unix fs now t w) =
             (if fs then db w
              else (db w)\<lparr>rows := map (\<lambda>x. if ID x = ID t then t1 else x) (rows (db w))\<rparr>)"
      by blast
    have st: "step a w = taskWorker_generate cmd_err unix fs now t w"
      using Finish Holding by simp
    show ?thesis
    proof (cases fs)
      case True
      with dbg st have "db (step a w) = db w" by simp
      then show ?thesis by (simp add: status_change_ok_refl)
    next
      case False
      define st' where "st' = (db w)\<lparr>rows := map (\<lambda>x. if ID x = ID r then t1 else x) (rows (db w))\<rparr>"
      from False dbg st have db': "db (step a w) = st'" by (simp add: st'_def r(2))
      have idt: "ID t1 = ID r" using t1 r by simp
      have new: "status_of st' i = (if i = ID r then Some (Status t1) else status_of (db w) i)"
        unfolding st'_def using status_of_replace [OF d r(1) idt, of "db w" i]
        by (simp add: status_of_rows)
      have old: "status_of (db w) (ID r) = Some (Status r)"
        using find_distinct_ID [OF d r(1)] by (simp add: status_of_def)
      have s2: "Status t1 = ''Failed'' \<or> Status t1 = ''Completed''"
        using t1(2) by (auto split: option.splits)
      show ?thesis
      proof (cases "i = ID r")
        case False
        with new show ?thesis unfolding db' by (simp add: status_change_ok_refl)
      next
        case True
        with new old have n: "status_of st' i = Some (Status t1)" "status_of (db w) i = Some (Status r)"
          by simp_all
        from sr show ?thesis
        proof
          assume "Status r = ''Pending''"
          with n s2 Finish show ?thesis unfolding db' by auto
        next
          assume "Status r = ''Processing''"
          with n s2 show ?thesis
            unfolding db' by (auto simp: status_change_ok_def legal_edge_def)
        qed
      qed
    qed
  qed (use Finish in \<open>simp_all add: status_change_ok_refl\<close>)
qed (simp_all only: db_unchanged status_change_ok_refl simp_thms)

text \<open>A task that is \<open>Completed\<close> or \<open>Failed\<close> keeps that status in everything that follows.\<close>

lemma terminal_step:
  assumes "consistent w" and "status_of (db w) i = Some s" and "s = ''Completed'' \<or> s = ''Failed''"
  shows "status_of (db (step a w)) i = Some s"
  using status_step [OF assms(1), of i a] assms(2,3)
  by (auto simp: status_change_ok_def legal_edge_def split: option.splits)

lemma terminal_run:
  assumes "consistent w" and "status_of (db w) i = Some s" and "s = ''Completed'' \<or> s = ''Failed''"
  shows "status_of (db (run bs w)) i = Some s"
  using assms
proof (induction bs arbitrary: w)
  case Nil
  then show ?case by simp
next
  case (Cons a bs)
  from Cons.prems have "consistent (step a w)" "status_of (db (step a w)) i = Some s"
    by (simp_all add: consistent_step terminal_step)
  with Cons.IH [of "step a w"] Cons.prems(3) show ?case by simp
qed

lemma table_ok_ex_store: "table_ok ex_store"
  by (simp add: table_ok_def ex_store_def ex_task_def)

text \<open>
  Claim C2 (monotonic status). The claim does not hold of the program. Over the example
  table, let the worker claim task 3 with a commit that fails: the transaction is rolled
  back, the stored status of task 3 is still \<open>Pending\<close>, and the worker, with \<open>found\<close>
  true, announces the task and runs the generator. When it saves the outcome the stored
  status of task 3 goes from \<open>Pending\<close> to \<open>Failed\<close> if the generator failed and from
  \<open>Pending\<close> to \<open>Completed\<close> if it succeeded, without ever being \<open>Processing\<close>; neither
  is a change the claim allows.
\<close>

theorem status_skips_processing:
  "status_of (db (boot ex_store)) 3 = Some ''Pending'' \<and>
   status_of (db (run ex_lost_commit (boot ex_store))) 3 = Some ''Pending'' \<and>
   worker (run ex_lost_commit (boot ex_store)) =
     Holding ((ex_task 3 ''owl'' ''Processing'' 7)\<lparr>UpdatedAt := 10\<rparr>) \<and>
   status_of (db (step (Finish (Some ''boom'') 100 False 11) (run ex_lost_commit (boot ex_store)))) 3
     = Some ''Failed'' \<and>
   status_of (db (step (Finish None 100 False 11) (run ex_lost_commit (boot ex_store)))) 3
     = Some ''Completed'' \<and>
   \<not> status_change_ok (Some ''Pending'') (Some ''Failed'') \<and>
   \<not> status_change_ok (Some ''Pending'') (Some ''Completed'')"
  by (simp add: ev status_change_ok_def legal_edge_def)

section \<open>The broadcast order\<close>

lemma step_extends:
  assumes "\<forall>wfail. a \<noteq> Dispatch wfail"
  shows "\<exists>xs. broadcast (step a w) = broadcast w @ xs"
proof (cases a)
  case (Dispatch wfail)
  with assms show ?thesis by simp
next
  case (Read ws rd ff cf now)
  then show ?thesis
    by (cases rd)
       (auto simp: serveWs_read_def db_Create_def Let_def split: option.splits session_pc.splits)
next
  case (Poll ff fs cf0 now)
  then show ?thesis
    by (auto simp: taskWorker_claim_def logf_def Let_def
          split: prod.splits option.splits worker_pc.splits)
next
  case (Finish ce u fs now)
  then show ?thesis by (auto simp: generate_frame split: worker_pc.splits)
qed (auto simp: serveWs_register_def logf_def serveWs_reply_def serveWs_send_def publish_def
       taskWorker_notify_def notifyUpdate_def
       split: option.splits session_pc.splits worker_pc.splits)

lemma fifo_step: "broadcast w @ published a w = delivered a w @ broadcast (step a w)"
proof (cases "\<exists>wfail. a = Dispatch wfail")
  case True
  then obtain wfail where a: "a = Dispatch wfail" by blast
  show ?thesis
    unfolding a by (cases "broadcast w") (simp_all add: published_def delivered_def handleMessages_step_def)
next
  case False
  then have n: "\<forall>wfail. a \<noteq> Dispatch wfail" by blast
  from step_extends [OF n] obtain xs where xs: "broadcast (step a w) = broadcast w @ xs" by blast
  from n have "published a w = drop (length (broadcast w)) (broadcast (step a w))"
    by (cases a) (simp_all add: published_def)
  moreover from n have "delivered a w = []" by (cases a) (simp_all add: delivered_def)
  ultimately show ?thesis using xs by simp
qed

lemma fifo_run: "broadcast w @ publications as w = deliveries as w @ broadcast (run as w)"
proof (induction as arbitrary: w)
  case Nil
  show ?case by simp
next
  case (Cons a as)
  have "broadcast w @ publications (a # as) w
          = (broadcast w @ published a w) @ publications as (step a w)" by simp
  also have "\<dots> = delivered a w @ (broadcast (step a w) @ publications as (step a w))"
    by (simp add: fifo_step)
  also have "\<dots> = delivered a w @ deliveries as (step a w) @ broadcast (run as (step a w))"
    by (simp add: Cons.IH)
  finally show ?case by simp
qed


lemma sent_step:
  "sent (step a w) c =
     sent w c @
       (case a of
          Dispatch wfail \<Rightarrow> if c \<in> dom (clients w) \<and> \<not> wfail c then take 1 (broadcast w) else []
        | Reply ws wfl \<Rightarrow>
            (case session w ws of
               Some (Replying resp) \<Rightarrow> if ws = c \<and> \<not> wfl then [resp] else []
             | _ \<Rightarrow> [])
        | _ \<Rightarrow> [])"
proof (cases a)
  case (Dispatch wfail)
  then show ?thesis by (cases "broadcast w") (auto simp: handleMessages_step_def)
next
  case (Read ws rd ff cf now)
  then show ?thesis
    by (cases rd)
       (auto simp: serveWs_read_def db_Create_def Let_def split: option.splits session_pc.splits)
next
  case (Poll ff fs cf0 now)
  then show ?thesis
    by (auto simp: taskWorker_claim_def logf_def Let_def
          split: prod.splits option.splits worker_pc.splits)
next
  case (Finish ce u fs now)
  then show ?thesis by (auto simp: generate_frame split: worker_pc.splits)
qed (auto simp: serveWs_register_def logf_def serveWs_reply_def serveWs_send_def publish_def
       taskWorker_notify_def notifyUpdate_def
       split: option.splits session_pc.splits worker_pc.splits)

lemma head_not_history:
  "consistent w \<Longrightarrow> filter (\<lambda>m. resp_Type m \<noteq> ''history'') (take 1 (broadcast w)) = take 1 (broadcast w)"
  by (cases "broadcast w") (auto simp: consistent_def)

lemma head_no_history:
  "consistent w \<Longrightarrow> filter (\<lambda>m. resp_Type m = ''history'') (take 1 (broadcast w)) = []"
  by (cases "broadcast w") (auto simp: consistent_def)


lemma events_step:
  assumes "consistent w"
  shows "events (step a w) c =
     events w c @
       (case a of
          Dispatch wfail \<Rightarrow> if c \<in> dom (clients w) \<and> \<not> wfail c then take 1 (broadcast w) else []
        | _ \<Rightarrow> [])"
proof -
  have r: "resp_Type resp = ''history''" if "session w ws = Some (Replying resp)" for resp ws
    using assms that by (auto simp: consistent_def)
  show ?thesis
    unfolding events_def sent_step [of a w c]
    using head_not_history [OF assms] r
    by (cases a) (auto split: option.splits session_pc.splits)
qed

lemma history_frames_step:
  assumes "consistent w" and "\<forall>wfl. a \<noteq> Reply c wfl"
  shows "history_frames (step a w) c = history_frames w c"
  unfolding history_frames_def sent_step [of a w c]
  using head_no_history [OF assms(1)] assms(2)
  by (cases a) (auto split: option.splits session_pc.splits)

lemma events_run:
  assumes "consistent w"
  shows "\<exists>xs. events (run as w) c = events w c @ xs \<and> subseq xs (deliveries as w)"
  using assms
proof (induction as arbitrary: w)
  case Nil
  then show ?case by simp
next
  case (Cons a as)
  from Cons.prems have c': "consistent (step a w)" by (rule consistent_step)
  from Cons.IH [OF c'] obtain xs where
    xs: "events (run as (step a w)) c = events (step a w) c @ xs"
        "subseq xs (deliveries as (step a w))" by blast
  define r where "r = (case a of
          Dispatch wfail \<Rightarrow> if c \<in> dom (clients w) \<and> \<not> wfail c then take 1 (broadcast w) else []
        | _ \<Rightarrow> [])"
  have e: "events (step a w) c = events w c @ r"
    unfolding r_def by (rule events_step [OF Cons.prems])
  have "subseq r (delivered a w)"
    by (cases a) (simp_all add: r_def delivered_def)
  from this xs(2) have "subseq (r @ xs) (delivered a w @ deliveries as (step a w))"
    by (rule list_emb_append_mono)
  with xs(1) e show ?case by auto
qed


lemma clients_step:
  "clients (step a w) c =
     (case a of
        Connect ws uf \<Rightarrow> if ws = c \<and> session w ws = None \<and> \<not> uf then Some True else clients w c
      | Read ws rd ff cf now \<Rightarrow>
          if ws = c \<and> session w ws = Some Reading \<and> isl rd then None else clients w c
      | Dispatch wfail \<Rightarrow> if broadcast w \<noteq> [] \<and> wfail c then None else clients w c
      | _ \<Rightarrow> clients w c)"
proof (cases a)
  case (Dispatch wfail)
  then show ?thesis by (cases "broadcast w") (auto simp: handleMessages_step_def)
next
  case (Read ws rd ff cf now)
  then show ?thesis
    by (cases rd)
       (auto simp: serveWs_read_def db_Create_def Let_def split: option.splits session_pc.splits)
next
  case (Poll ff fs cf0 now)
  then show ?thesis
    by (auto simp: taskWorker_claim_def logf_def Let_def
          split: prod.splits option.splits worker_pc.splits)
next
  case (Finish ce u fs now)
  then show ?thesis by (auto simp: generate_frame split: worker_pc.splits)
qed (auto simp: serveWs_register_def logf_def serveWs_reply_def serveWs_send_def publish_def
       taskWorker_notify_def notifyUpdate_def
       split: option.splits session_pc.splits worker_pc.splits)

lemma clients_step_undisturbed:
  assumes "clients w c \<noteq> None" and "undisturbed c [a]"
  shows "clients (step a w) c \<noteq> None"
  using assms unfolding clients_step by (cases a) auto

lemma events_undisturbed:
  assumes "consistent w" and "clients w c \<noteq> None" and "undisturbed c as"
  shows "events (run as w) c = events w c @ deliveries as w \<and> clients (run as w) c \<noteq> None"
  using assms
proof (induction as arbitrary: w)
  case Nil
  then show ?case by simp
next
  case (Cons a as)
  from Cons.prems(3) have u1: "undisturbed c [a]" and u2: "undisturbed c as" by simp_all
  from Cons.prems(1) have c': "consistent (step a w)" by (rule consistent_step)
  from clients_step_undisturbed [OF Cons.prems(2) u1] have r': "clients (step a w) c \<noteq> None" .
  have e: "events (step a w) c = events w c @ delivered a w"
    using events_step [OF Cons.prems(1), of a c] Cons.prems(2) u1
    by (cases a) (auto simp: delivered_def)
  from Cons.IH [OF c' r' u2] e show ?case by simp
qed

text \<open>
  Claim C4 (broadcast total order). The dispatcher takes the oldest value off the channel
  and writes it to every connection registered at that moment: a connection whose write
  succeeds has the value appended to what it has received, one whose write fails is closed
  and unregistered. In every execution from the start of the server, the values sent on
  the channel are, in the order of sending, those the dispatcher has received followed by
  those still waiting; the broadcast events of any connection are a subsequence of what
  the dispatcher has received, in that order; and a connection that stays registered and
  whose writes succeed receives exactly what the dispatcher receives, in that order.
\<close>
theorem broadcast_total_order:
  assumes ok: "table_ok st"
  shows "(broadcast w = m # q \<and> clients w c \<noteq> None \<longrightarrow>
      broadcast (step (Dispatch wfail) w) = q \<and>
      (if wfail c
       then sent (step (Dispatch wfail) w) c = sent w c \<and>
            clients (step (Dispatch wfail) w) c = None \<and> c \<in> closed (step (Dispatch wfail) w)
       else sent (step (Dispatch wfail) w) c = sent w c @ [m] \<and>
            clients (step (Dispatch wfail) w) c = clients w c)) \<and>
   publications as (boot st) = deliveries as (boot st) @ broadcast (run as (boot st)) \<and>
   subseq (events (run as (boot st)) c) (deliveries as (boot st)) \<and>
   (clients (run pre (boot st)) c \<noteq> None \<and> undisturbed c as \<longrightarrow>
      events (run (pre @ as) (boot st)) c = events (run pre (boot st)) c @ deliveries as (run pre (boot st)) \<and>
      clients (run (pre @ as) (boot st)) c \<noteq> None)"
proof -
  have 1: "broadcast (step (Dispatch wfail) w) = q \<and>
      (if wfail c
       then sent (step (Dispatch wfail) w) c = sent w c \<and>
            clients (step (Dispatch wfail) w) c = None \<and> c \<in> closed (step (Dispatch wfail) w)
       else sent (step (Dispatch wfail) w) c = sent w c @ [m] \<and>
            clients (step (Dispatch wfail) w) c = clients w c)"
    if "broadcast w = m # q \<and> clients w c \<noteq> None"
    using that by (auto simp: handleMessages_step_def)
  have 2: "publications as (boot st) = deliveries as (boot st) @ broadcast (run as (boot st))"
    using fifo_run [of "boot st" as] by (simp add: boot_def)
  have 3: "subseq (events (run as (boot st)) c) (deliveries as (boot st))"
    using events_run [OF consistent_boot [OF ok], of as c] by (auto simp: events_def boot_def)
  have 4: "events (run (pre @ as) (boot st)) c = events (run pre (boot st)) c @ deliveries as (run pre (boot st)) \<and>
      clients (run (pre @ as) (boot st)) c \<noteq> None"
    if "clients (run pre (boot st)) c \<noteq> None \<and> undisturbed c as"
  proof -
    have c: "consistent (run pre (boot st))" by (simp add: consistent_run consistent_boot [OF ok])
    from that events_undisturbed [OF c, of c as] show ?thesis by (simp add: run_append)
  qed
  from 1 have i1: "broadcast w = m # q \<and> clients w c \<noteq> None \<longrightarrow>
      broadcast (step (Dispatch wfail) w) = q \<and>
      (if wfail c
       then sent (step (Dispatch wfail) w) c = sent w c \<and>
            clients (step (Dispatch wfail) w) c = None \<and> c \<in> closed (step (Dispatch wfail) w)
       else sent (step (Dispatch wfail) w) c = sent w c @ [m] \<and>
            clients (step (Dispatch wfail) w) c = clients w c)" by (rule impI)
  from 4 have i4: "clients (run pre (boot st)) c \<noteq> None \<and> undisturbed c as \<longrightarrow>
      events (run (pre @ as) (boot st)) c = events (run pre (boot st)) c @ deliveries as (run pre (boot st)) \<and>
      clients (run (pre @ as) (boot st)) c \<noteq> None" by (rule impI)
  from i1 2 3 i4 show ?thesis by (intro conjI)
qed


theorem broadcast_total_order_witness:
  "clients (run ex_pair init) 2 \<noteq> None \<and> undisturbed 2 ex_traffic \<and>
   deliveries ex_traffic (run ex_pair init) =
     [WSResponse ''new_task'' (TaskData (ex_dog ''Pending'' 5)),
      WSResponse ''update'' (TaskData (ex_dog ''Processing'' 7))] \<and>
   events (run (ex_pair @ ex_traffic) init) 2 =
     [WSResponse ''new_task'' (TaskData (ex_dog ''Pending'' 5)),
      WSResponse ''update'' (TaskData (ex_dog ''Processing'' 7))] \<and>
   events (run (ex_pair @ ex_traffic) init) 1 =
     [WSResponse ''new_task'' (TaskData (ex_dog ''Pending'' 5))] \<and>
   subseq (events (run (ex_pair @ ex_traffic) init) 1) (deliveries (ex_pair @ ex_traffic) init) \<and>
   publications (ex_pair @ ex_traffic) init =
     deliveries (ex_pair @ ex_traffic) init @ broadcast (run (ex_pair @ ex_traffic) init) \<and>
   clients (run (ex_pair @ ex_traffic) init) 1 = None"
proof -
  have r: "clients (run ex_pair init) 2 \<noteq> None" by (auto simp: ev domIff)
  have u: "undisturbed 2 ex_traffic" by (auto simp: ev domIff)
  have e: "events (run ex_pair init) 2 = []" by (auto simp: ev domIff)
  have d: "deliveries ex_traffic (run ex_pair init) =
     [WSResponse ''new_task'' (TaskData (ex_dog ''Pending'' 5)),
      WSResponse ''update'' (TaskData (ex_dog ''Processing'' 7))]"
    by (auto simp: ev domIff)
  have o: "events (run (ex_pair @ ex_traffic) init) 1 =
     [WSResponse ''new_task'' (TaskData (ex_dog ''Pending'' 5))]"
    by (auto simp: ev domIff)
  have c: "clients (run (ex_pair @ ex_traffic) init) 1 = None" by (auto simp: ev domIff)
  from broadcast_total_order [OF table_ok_empty, folded init_def,
      where c = 1 and as = "ex_pair @ ex_traffic"]
  have 1: "publications (ex_pair @ ex_traffic) init =
     deliveries (ex_pair @ ex_traffic) init @ broadcast (run (ex_pair @ ex_traffic) init)"
    and 2: "subseq (events (run (ex_pair @ ex_traffic) init) 1) (deliveries (ex_pair @ ex_traffic) init)"
    by simp_all
  from broadcast_total_order [OF table_ok_empty, folded init_def,
      where c = 2 and pre = ex_pair and as = ex_traffic] r u e d
  have 3: "events (run (ex_pair @ ex_traffic) init) 2 =
     [WSResponse ''new_task'' (TaskData (ex_dog ''Pending'' 5)),
      WSResponse ''update'' (TaskData (ex_dog ''Processing'' 7))]"
    by simp
  from r u d 3 o 2 1 c show ?thesis by (intro conjI)
qed


section \<open>Failure of the generator\<close>

lemma worker_other: "\<not> by_worker a \<Longrightarrow> worker (step a w) = worker w"
  by (cases a)
     (auto simp: by_worker_def serveWs_register_def logf_def serveWs_read_def db_Create_def
        serveWs_reply_def serveWs_send_def publish_def handleMessages_step_def Let_def
        split: option.splits session_pc.splits list.splits sum.splits)

lemma worker_others: "\<forall>a \<in> set bs. \<not> by_worker a \<Longrightarrow> worker (run bs w) = worker w"
  by (induction bs arbitrary: w) (simp_all add: worker_other)

lemma generate_failure_effects:
  "effects (taskWorker_generate (Some out) unix fs now t w) =
     effects w @ [LogProcessing (ID t) (Prompt t), LogFailed (ID t) (ErrPython out)]"
  by (simp add: taskWorker_generate_def runPythonZImage_def logf_def Let_def split: prod.splits)

text \<open>
  What the worker does when the generator returns an error, in any state the server
  reaches in which it holds a task. It logs the failure and saves the task with status
  \<open>Failed\<close> and its image path still empty. Whatever the sessions and the dispatcher do
  meanwhile, its next step sends one \<open>update\<close> event carrying the task with status
  \<open>Failed\<close> and an empty image path, and it is back at the head of its loop. When the
  save succeeds the stored row of the task has status \<open>Failed\<close>, then and in everything
  that follows. The error of the save is not looked at: when the save fails the table is
  as before, and all the rest is the same.
\<close>

lemma generator_failure_handled:
  assumes ok: "table_ok st"
    and w: "w = run as (boot st)" and held: "worker w = Holding task"
    and w1: "w1 = step (Finish (Some out) unix save_fails now) w"
    and quiet: "\<forall>a \<in> set bs. \<not> by_worker a" and w2: "w2 = run bs w1"
  shows "effects w1 = effects w @
           [LogProcessing (ID task) (Prompt task), LogFailed (ID task) (ErrPython out)] \<and>
         (\<exists>t'. ID t' = ID task \<and> Status t' = ''Failed'' \<and> ImagePath t' = [] \<and>
              worker w1 = Finished t' \<and>
              (\<not> save_fails \<longrightarrow>
                 find (\<lambda>r. ID r = ID task) (rows (db w1)) = Some t' \<and>
                 status_of (db w1) (ID task) = Some ''Failed'' \<and>
                 status_of (db (step Notify w2)) (ID task) = Some ''Failed'') \<and>
              (save_fails \<longrightarrow> db w1 = db w) \<and>
              worker w2 = Finished t' \<and>
              broadcast (step Notify w2) = broadcast w2 @ [WSResponse ''update'' (TaskData t')] \<and>
              worker (step Notify w2) = Idle)"
proof -
  have c: "consistent w" unfolding w by (simp add: consistent_run consistent_boot [OF ok])
  with held have h: "held w task" and tk: "table_ok (db w)" by (simp_all add: consistent_def)
  from held_row [OF tk h] obtain r where r: "r \<in> set (rows (db w))" "ID r = ID task" "ID task \<noteq> 0"
    and img: "ImagePath task = []" by blast
  have st: "w1 = taskWorker_generate (Some out) unix save_fails now task w"
    unfolding w1 using held by simp
  from generate_outcome [OF r, where cmd_err = "Some out" and fs = save_fails and unix = unix
      and now = now]
  obtain t' where t': "ID t' = ID task" "Status t' = ''Failed''" "ImagePath t' = ImagePath task"
    and wk: "worker w1 = Finished t'"
    and dbg: "db w1 = (if save_fails then db w
              else (db w)\<lparr>rows := map (\<lambda>x. if ID x = ID task then t' else x) (rows (db w))\<rparr>)"
    unfolding st by auto
  have c1: "consistent w1" unfolding w1 by (rule consistent_step [OF c])
  have "ID r \<in> ID ` set (rows (db w))" using r(1) by (rule imageI)
  then have inrows: "ID task \<in> ID ` set (rows (db w))" using r(2) by simp
  have f: "find (\<lambda>r. ID r = ID task) (rows (db w1)) = Some t'" if "\<not> save_fails"
    using that dbg inrows t'(1) by (simp add: find_replace_ID)
  have s1: "status_of (db w1) (ID task) = Some ''Failed''" if "\<not> save_fails"
    using f [OF that] t'(2) by (simp add: status_of_def)
  have s2: "status_of (db (step Notify w2)) (ID task) = Some ''Failed''" if "\<not> save_fails"
    using terminal_run [OF c1 s1 [OF that], of "bs @ [Notify]"] by (simp add: run_append w2)
  have wk2: "worker w2 = Finished t'"
    unfolding w2 using worker_others [OF quiet] wk by simp
  have n: "broadcast (step Notify w2) = broadcast w2 @ [WSResponse ''update'' (TaskData t')]"
    "worker (step Notify w2) = Idle"
    using wk2 by (simp_all add: taskWorker_notify_def notifyUpdate_def publish_def)
  from t' img wk f s1 s2 dbg wk2 n
  have e: "\<exists>t'. ID t' = ID task \<and> Status t' = ''Failed'' \<and> ImagePath t' = [] \<and>
              worker w1 = Finished t' \<and>
              (\<not> save_fails \<longrightarrow>
                 find (\<lambda>r. ID r = ID task) (rows (db w1)) = Some t' \<and>
                 status_of (db w1) (ID task) = Some ''Failed'' \<and>
                 status_of (db (step Notify w2)) (ID task) = Some ''Failed'') \<and>
              (save_fails \<longrightarrow> db w1 = db w) \<and>
              worker w2 = Finished t' \<and>
              broadcast (step Notify w2) = broadcast w2 @ [WSResponse ''update'' (TaskData t')] \<and>
              worker (step Notify w2) = Idle"
    by (intro exI [of _ t']) simp
  have "effects w1 = effects w @
           [LogProcessing (ID task) (Prompt task), LogFailed (ID task) (ErrPython out)]"
    unfolding st by (rule generate_failure_effects)
  with e show ?thesis by (rule conjI [rotated])
qed

lemma generator_failure_example:
  "worker (step (Finish (Some ''boom'') 100 False 7) (run ex_trace init))
     = Finished (ex_held\<lparr>Status := ''Failed'', UpdatedAt := 7\<rparr>) \<and>
   status_of (db (step (Finish (Some ''boom'') 100 False 7) (run ex_trace init))) 1 = Some ''Failed'' \<and>
   broadcast (step Notify (run ex_meanwhile (step (Finish (Some ''boom'') 100 False 7) (run ex_trace init))))
     = broadcast (run ex_meanwhile (step (Finish (Some ''boom'') 100 False 7) (run ex_trace init))) @
         [WSResponse ''update'' (TaskData (ex_held\<lparr>Status := ''Failed'', UpdatedAt := 7\<rparr>))]"
  by (simp add: ex_trace_run) (simp add: ev)

text \<open>
  Claim C5 (collaborator failure). The claim does not hold of the program in its first
  part. Let the worker hold task 1, let the generator return an error and let the save
  of the outcome report a storage error. The error of this save is not looked at and
  nothing is logged for it. The worker has the task with status \<open>Failed\<close> in its hands,
  sends the \<open>update\<close> event carrying it and is back at the head of its loop; the stored
  status of task 1 is \<open>Processing\<close>, and still is after the next poll of the worker,
  which finds nothing pending.
\<close>

theorem failed_save_leaves_processing:
  "worker (run ex_trace init) = Holding ex_held \<and>
   status_of (db (run ex_trace init)) 1 = Some ''Processing'' \<and>
   worker (step (Finish (Some ''boom'') 100 True 7) (run ex_trace init))
     = Finished (ex_held\<lparr>Status := ''Failed'', UpdatedAt := 7\<rparr>) \<and>
   effects (step (Finish (Some ''boom'') 100 True 7) (run ex_trace init))
     = [LogProcessing 1 ''cat'', LogFailed 1 (ErrPython ''boom'')] \<and>
   status_of (db (step (Finish (Some ''boom'') 100 True 7) (run ex_trace init))) 1 = Some ''Processing'' \<and>
   broadcast (run [Finish (Some ''boom'') 100 True 7, Notify] (run ex_trace init))
     = broadcast (run ex_trace init) @
         [WSResponse ''update'' (TaskData (ex_held\<lparr>Status := ''Failed'', UpdatedAt := 7\<rparr>))] \<and>
   worker (run [Finish (Some ''boom'') 100 True 7, Notify] (run ex_trace init)) = Idle \<and>
   status_of (db (run [Finish (Some ''boom'') 100 True 7, Notify] (run ex_trace init))) 1
     = Some ''Processing'' \<and>
   run [Finish (Some ''boom'') 100 True 7, Notify, Poll False False False 8] (run ex_trace init)
     = (run [Finish (Some ''boom'') 100 True 7, Notify] (run ex_trace init))
         \<lparr>effects := [LogProcessing 1 ''cat'', LogFailed 1 (ErrPython ''boom''), Sleep 2]\<rparr>"
  by (simp add: ex_trace_run) (simp add: ev)

section \<open>The history reply\<close>

lemma sorted_desc_recent:
  "sorted_wrt (\<lambda>a b. CreatedAt b \<le> CreatedAt a) (take k (rev (sort_key CreatedAt ts)))"
proof -
  have "sorted (map CreatedAt (sort_key CreatedAt ts))" by simp
  then have "sorted_wrt (\<lambda>a b. CreatedAt a \<le> CreatedAt b) (sort_key CreatedAt ts)"
    by (simp add: sorted_map)
  then have "sorted_wrt (\<lambda>a b. CreatedAt b \<le> CreatedAt a) (rev (sort_key CreatedAt ts))"
    by (simp add: sorted_wrt_rev)
  then show ?thesis by (rule sorted_wrt_take)
qed


text \<open>
  Claim C6 (history bound and order). The reply to a \<open>get_history\<close> request is a
  \<open>history\<close> frame with at most 20 rows of the table, sorted by creation time, latest
  first; it has 20 rows, or all rows when there are fewer, unless the query fails, and
  then it has none. The session holds this frame after the read and writes it to its own
  connection.
\<close>
theorem get_history_bound_order:
  assumes "msg_Type msg = ''get_history''" and "session w ws = Some Reading"
  shows "\<exists>ts. history_reply find_fails (db w) = WSResponse ''history'' (TaskList ts) \<and>
           length ts \<le> 20 \<and>
           sorted_wrt (\<lambda>a b. CreatedAt b \<le> CreatedAt a) ts \<and>
           set ts \<subseteq> set (rows (db w)) \<and>
           (\<not> find_fails \<longrightarrow> length ts = min 20 (length (rows (db w)))) \<and>
           step (Read ws (Inr msg) find_fails create_fails now) w =
             w\<lparr>session := (session w)(ws \<mapsto> Replying (WSResponse ''history'' (TaskList ts)))\<rparr> \<and>
           sent (step (Reply ws False) (step (Read ws (Inr msg) find_fails create_fails now) w)) ws =
             sent w ws @ [WSResponse ''history'' (TaskList ts)] \<and>
           sent (serveWs_iteration ws (Inr msg) find_fails False create_fails now w) ws =
             sent w ws @ [WSResponse ''history'' (TaskList ts)]"
proof -
  define ts where "ts = (case db_Find_recent find_fails 20 (db w) of Inl e \<Rightarrow> [] | Inr ts \<Rightarrow> ts)"
  have reply: "history_reply find_fails (db w) = WSResponse ''history'' (TaskList ts)"
    by (simp add: history_reply_def ts_def)
  define by_key where "by_key = rev (sort_key ID (rows (db w)))"
  have bk: "set by_key = set (rows (db w))" "length by_key = length (rows (db w))"
    by (simp_all add: by_key_def)
  have eq: "ts = (if find_fails then [] else take 20 (rev (sort_key CreatedAt by_key)))"
    by (simp add: ts_def db_Find_recent_def by_key_def)
  have len: "length ts \<le> 20" by (simp add: eq)
  have srt: "sorted_wrt (\<lambda>a b. CreatedAt b \<le> CreatedAt a) ts"
    by (simp add: eq sorted_desc_recent)
  have sub: "set ts \<subseteq> set (rows (db w))"
    using set_take_subset [of 20 "rev (sort_key CreatedAt by_key)"] by (simp add: eq bk)
  have cnt: "\<not> find_fails \<longrightarrow> length ts = min 20 (length (rows (db w)))"
    by (simp add: eq bk min.commute)
  have rd: "step (Read ws (Inr msg) find_fails create_fails now) w =
             w\<lparr>session := (session w)(ws \<mapsto> Replying (WSResponse ''history'' (TaskList ts)))\<rparr>"
    using assms reply by (simp add: serveWs_read_def)
  have rp: "sent (step (Reply ws False) (step (Read ws (Inr msg) find_fails create_fails now) w)) ws =
             sent w ws @ [WSResponse ''history'' (TaskList ts)]"
    unfolding rd by (simp add: serveWs_reply_def)
  have it: "sent (serveWs_iteration ws (Inr msg) find_fails False create_fails now w) ws =
             sent w ws @ [WSResponse ''history'' (TaskList ts)]"
    unfolding serveWs_iteration_def run.simps rd by (simp add: serveWs_reply_def)
  from reply len srt sub cnt rd rp it show ?thesis by blast
qed

theorem get_history_bound_order_witness:
  "msg_Type (WSMessage ''get_history'' []) = ''get_history'' \<and> session ex_world 1 = Some Reading \<and>
   history_reply False (db ex_world) = WSResponse ''history''
      (TaskList [ex_task 2 ''dog'' ''Pending'' 9, ex_task 3 ''owl'' ''Pending'' 7,
                 ex_task 4 ''fox'' ''Pending'' 7, ex_task 1 ''cat'' ''Failed'' 5]) \<and>
   (\<exists>ts. history_reply False (db ex_world) = WSResponse ''history'' (TaskList ts) \<and>
           length ts \<le> 20 \<and>
           sorted_wrt (\<lambda>a b. CreatedAt b \<le> CreatedAt a) ts \<and>
           sent (serveWs_iteration 1 (Inr (WSMessage ''get_history'' [])) False False False 0 ex_world) 1 =
             sent ex_world 1 @ [WSResponse ''history'' (TaskList ts)])"
proof -
  have h: "msg_Type (WSMessage ''get_history'' []) = ''get_history''" by simp
  have r: "session ex_world 1 = Some Reading" by (simp add: ev)
  have e: "history_reply False (db ex_world) = WSResponse ''history''
      (TaskList [ex_task 2 ''dog'' ''Pending'' 9, ex_task 3 ''owl'' ''Pending'' 7,
                 ex_task 4 ''fox'' ''Pending'' 7, ex_task 1 ''cat'' ''Failed'' 5])"
    by (simp add: ev)
  from get_history_bound_order [OF h r, where find_fails = False and create_fails = False and now = 0]
    h r e show ?thesis by blast
qed


text \<open>
  Claim C7 (history privacy). Reading a \<open>get_history\<close> request changes nothing but the
  place of the session, which then holds the reply; writing the reply leaves the channel,
  the table and the registered connections as they were and changes what has been written
  to the requesting connection only. In every execution from the start of the server, no
  step other than the reply of the session of a connection adds a history frame to what
  that connection has received. Reading a \<open>create_task\<close> request creates the pending
  task; the session then sends a \<open>new_task\<close> event with it on the channel, and the
  dispatcher writes the value at the head of the channel to every registered connection
  whose write succeeds.
\<close>
theorem history_private_create_broadcast:
  assumes ok: "table_ok st"
  shows "(msg_Type msg = ''get_history'' \<and> session w ws = Some Reading \<longrightarrow>
            step (Read ws (Inr msg) ff cf now) w =
              w\<lparr>session := (session w)(ws \<mapsto> Replying (history_reply ff (db w)))\<rparr>) \<and>
         (session w ws = Some (Replying resp) \<longrightarrow>
            broadcast (step (Reply ws wfl) w) = broadcast w \<and>
            db (step (Reply ws wfl) w) = db w \<and>
            clients (step (Reply ws wfl) w) = clients w \<and>
            (\<forall>c. c \<noteq> ws \<longrightarrow> sent (step (Reply ws wfl) w) c = sent w c) \<and>
            sent (step (Reply ws wfl) w) ws = sent w ws @ (if wfl then [] else [resp])) \<and>
         ((\<forall>wfl. a \<noteq> Reply c wfl) \<longrightarrow>
            history_frames (step a (run as (boot st))) c = history_frames (run as (boot st)) c) \<and>
         (msg_Type msg = ''create_task'' \<and> session w ws = Some Reading \<longrightarrow>
            (\<exists>t. session (step (Read ws (Inr msg) ff cf now) w) ws =
                    Some (Sending (WSResponse ''new_task'' (TaskData t))) \<and>
                 Prompt t = msg_Prompt msg \<and> Status t = ''Pending'' \<and>
                 broadcast (step (Read ws (Inr msg) ff cf now) w) = broadcast w \<and>
                 (\<not> cf \<longrightarrow> rows (db (step (Read ws (Inr msg) ff cf now) w)) = rows (db w) @ [t]))) \<and>
         (session w ws = Some (Sending resp) \<longrightarrow>
            broadcast (step (Send ws) w) = broadcast w @ [resp]) \<and>
         (broadcast w = m # q \<and> clients w c \<noteq> None \<and> \<not> wfail c \<longrightarrow>
            sent (step (Dispatch wfail) w) c = sent w c @ [m])"
proof -
  have i1: "msg_Type msg = ''get_history'' \<and> session w ws = Some Reading \<longrightarrow>
            step (Read ws (Inr msg) ff cf now) w =
              w\<lparr>session := (session w)(ws \<mapsto> Replying (history_reply ff (db w)))\<rparr>"
    by (simp add: serveWs_read_def)
  have i2: "session w ws = Some (Replying resp) \<longrightarrow>
            broadcast (step (Reply ws wfl) w) = broadcast w \<and>
            db (step (Reply ws wfl) w) = db w \<and>
            clients (step (Reply ws wfl) w) = clients w \<and>
            (\<forall>c. c \<noteq> ws \<longrightarrow> sent (step (Reply ws wfl) w) c = sent w c) \<and>
            sent (step (Reply ws wfl) w) ws = sent w ws @ (if wfl then [] else [resp])"
    by (simp add: serveWs_reply_def)
  have i3: "(\<forall>wfl. a \<noteq> Reply c wfl) \<longrightarrow>
            history_frames (step a (run as (boot st))) c = history_frames (run as (boot st)) c"
  proof
    assume n: "\<forall>wfl. a \<noteq> Reply c wfl"
    have c: "consistent (run as (boot st))" by (simp add: consistent_run consistent_boot [OF ok])
    from history_frames_step [OF c n]
    show "history_frames (step a (run as (boot st))) c = history_frames (run as (boot st)) c" .
  qed
  have i4: "msg_Type msg = ''create_task'' \<and> session w ws = Some Reading \<longrightarrow>
            (\<exists>t. session (step (Read ws (Inr msg) ff cf now) w) ws =
                    Some (Sending (WSResponse ''new_task'' (TaskData t))) \<and>
                 Prompt t = msg_Prompt msg \<and> Status t = ''Pending'' \<and>
                 broadcast (step (Read ws (Inr msg) ff cf now) w) = broadcast w \<and>
                 (\<not> cf \<longrightarrow> rows (db (step (Read ws (Inr msg) ff cf now) w)) = rows (db w) @ [t]))"
  proof
    assume a: "msg_Type msg = ''create_task'' \<and> session w ws = Some Reading"
    then have r: "session w ws = Some Reading" and m: "msg_Type msg = ''create_task''" by simp_all
    from create_task_step [OF r m, of cf ff now] obtain t where
      t: "Prompt t = msg_Prompt msg" "Status t = ''Pending''"
      and s: "step (Read ws (Inr msg) ff cf now) w =
               w\<lparr>db := (if cf then db w
                         else (db w)\<lparr>rows := rows (db w) @ [t], seq := Suc (seq (db w))\<rparr>),
                 session := (session w)(ws \<mapsto> Sending (WSResponse ''new_task'' (TaskData t)))\<rparr>"
      by blast
    show "\<exists>t. session (step (Read ws (Inr msg) ff cf now) w) ws =
                    Some (Sending (WSResponse ''new_task'' (TaskData t))) \<and>
                 Prompt t = msg_Prompt msg \<and> Status t = ''Pending'' \<and>
                 broadcast (step (Read ws (Inr msg) ff cf now) w) = broadcast w \<and>
                 (\<not> cf \<longrightarrow> rows (db (step (Read ws (Inr msg) ff cf now) w)) = rows (db w) @ [t])"
      unfolding s using t by (intro exI [of _ t]) simp
  qed
  have i5: "session w ws = Some (Sending resp) \<longrightarrow>
            broadcast (step (Send ws) w) = broadcast w @ [resp]"
    by (simp add: serveWs_send_def publish_def)
  have i6: "broadcast w = m # q \<and> clients w c \<noteq> None \<and> \<not> wfail c \<longrightarrow>
            sent (step (Dispatch wfail) w) c = sent w c @ [m]"
    by (auto simp: handleMessages_step_def)
  from i1 i2 i3 i4 i5 i6 show ?thesis by (intro conjI)
qed

theorem history_private_create_broadcast_witness:
  "msg_Type (WSMessage ''get_history'' []) = ''get_history'' \<and> session ex_world 2 = Some Reading \<and>
   session (step (Read 2 (Inr (WSMessage ''get_history'' [])) False False 6) ex_world) 2
     = Some (Replying (history_reply False ex_store)) \<and>
   broadcast (run [Read 2 (Inr (WSMessage ''get_history'' [])) False False 6, Reply 2 False] ex_world) = [] \<and>
   sent (run [Read 2 (Inr (WSMessage ''get_history'' [])) False False 6, Reply 2 False] ex_world) 1 = [] \<and>
   sent (run [Read 2 (Inr (WSMessage ''get_history'' [])) False False 6, Reply 2 False] ex_world) 2 =
     [history_reply False ex_store] \<and>
   history_frames (run ex_history init) 2 = [history_reply False (db (run ex_history init))] \<and>
   history_frames (step (Dispatch (\<lambda>c. False)) (run ex_history init)) 1 = [] \<and>
   sent (step (Dispatch (\<lambda>c. False)) (run ex_history init)) 1 =
     [WSResponse ''new_task'' (TaskData (ex_dog ''Pending'' 5))] \<and>
   msg_Type (WSMessage ''create_task'' ''dog'') = ''create_task'' \<and>
   broadcast (run [Read 1 (Inr (WSMessage ''create_task'' ''dog'')) False False 20, Send 1] ex_world)
     = [ex_new] \<and>
   sent (run [Read 1 (Inr (WSMessage ''create_task'' ''dog'')) False False 20, Send 1,
              Dispatch (\<lambda>c. False)] ex_world) 2
     = [ex_new]"
proof -
  let ?h = "WSMessage ''get_history'' []" and ?c = "WSMessage ''create_task'' ''dog''"
  let ?r = "step (Read 2 (Inr ?h) False False 6) ex_world"
  let ?n = "step (Read 1 (Inr ?c) False False 20) ex_world"
  have g: "msg_Type ?h = ''get_history''" and k: "msg_Type ?c = ''create_task''" by simp_all
  have r1: "session ex_world 1 = Some Reading" and r2: "session ex_world 2 = Some Reading"
    by (simp_all add: ev)
  have b0: "broadcast ex_world = []" and s0: "sent ex_world 1 = []" "sent ex_world 2 = []"
    and d0: "db ex_world = ex_store"
    by (simp_all add: ev)
  note t = history_private_create_broadcast [OF table_ok_empty, folded init_def]
  from t [where msg = ?h and ws = 2 and ff = False and cf = False and now = 6 and w = ex_world]
    g r2 d0
  have rd: "?r = ex_world\<lparr>session := (session ex_world)(2 \<mapsto> Replying (history_reply False ex_store))\<rparr>"
    by simp
  then have 0: "session ?r 2 = Some (Replying (history_reply False ex_store))" by simp
  from t [where w = ?r and ws = 2 and resp = "history_reply False ex_store" and wfl = False] 0
  have "broadcast (step (Reply 2 False) ?r) = broadcast ?r"
    and "sent (step (Reply 2 False) ?r) 1 = sent ?r 1"
    and "sent (step (Reply 2 False) ?r) 2 = sent ?r 2 @ [history_reply False ex_store]"
    by simp_all
  with rd b0 s0
  have 1: "broadcast (run [Read 2 (Inr ?h) False False 6, Reply 2 False] ex_world) = []"
    and 2: "sent (run [Read 2 (Inr ?h) False False 6, Reply 2 False] ex_world) 1 = []"
    and 3: "sent (run [Read 2 (Inr ?h) False False 6, Reply 2 False] ex_world) 2 =
              [history_reply False ex_store]"
    by simp_all
  have 4: "history_frames (run ex_history init) 2 = [history_reply False (db (run ex_history init))]"
    by (simp add: ev)
  have h1: "history_frames (run ex_history init) 1 = []" by (simp add: ev)
  have n: "\<forall>wfl. Dispatch (\<lambda>c. False) \<noteq> Reply 1 wfl" by simp
  from t [where a = "Dispatch (\<lambda>c. False)" and c = 1 and as = ex_history] n h1
  have 5: "history_frames (step (Dispatch (\<lambda>c. False)) (run ex_history init)) 1 = []" by simp
  have 6: "sent (step (Dispatch (\<lambda>c. False)) (run ex_history init)) 1 =
     [WSResponse ''new_task'' (TaskData (ex_dog ''Pending'' 5))]"
    by (auto simp: ev domIff)
  have sn: "session ?n 1 = Some (Sending ex_new)" and bn: "broadcast ?n = []" by (simp_all add: ev)
  from t [where w = ?n and ws = 1 and resp = ex_new] sn bn
  have 7: "broadcast (run [Read 1 (Inr ?c) False False 20, Send 1] ex_world) = [ex_new]" by simp
  let ?s = "run [Read 1 (Inr ?c) False False 20, Send 1] ex_world"
  have cr: "clients ?s 2 \<noteq> None" and s2: "sent ?s 2 = []" by (simp_all add: ev)
  from t [where w = ?s and m = ex_new and q = "[]" and c = 2 and wfail = "\<lambda>c. False"] 7 cr s2
  have "sent (step (Dispatch (\<lambda>c. False)) ?s) 2 = [ex_new]" by simp
  then have 8: "sent (run [Read 1 (Inr ?c) False False 20, Send 1, Dispatch (\<lambda>c. False)] ex_world) 2
     = [ex_new]" by simp
  from g r2 0 1 2 3 4 5 6 k 7 8 show ?thesis by (intro conjI)
qed

section \<open>An empty queue\<close>

text \<open>
  Claim C8 (an empty queue is not an error). With the worker at the head of its loop: when
  no row is pending and the select reports no storage error, the transaction ends with
  \<open>ErrRecordNotFound\<close>, nothing is logged, the worker sleeps 2 seconds and nothing else
  changes. A storage error of the select or of the save is logged as a database error,
  the table is left as it was, and the worker sleeps 2 seconds and is again at the head of
  its loop. A storage error of the commit is logged as a database error as well, and the
  table is left as it was. \<open>ErrRecordNotFound\<close> is never logged as a database error.
\<close>
theorem empty_queue_backoff:
  assumes "worker w = Idle"
  shows "(pending (rows (db w)) = [] \<longrightarrow>
            claim_tx False save_fails commit_fails now (db w) =
              (Some ErrRecordNotFound, False, zeroTask, db w) \<and>
            step (Poll False save_fails commit_fails now) w = w\<lparr>effects := effects w @ [Sleep 2]\<rparr> \<and>
            taskWorker_iteration False save_fails commit_fails now cmd_err unix final_save_fails now' w =
              w\<lparr>effects := effects w @ [Sleep 2]\<rparr>) \<and>
         step (Poll True save_fails commit_fails now) w =
            w\<lparr>effects := effects w @ [LogDatabaseError ErrStorage, Sleep 2]\<rparr> \<and>
         (pending (rows (db w)) \<noteq> [] \<longrightarrow>
            step (Poll False True commit_fails now) w =
              w\<lparr>effects := effects w @ [LogDatabaseError ErrStorage, Sleep 2]\<rparr>) \<and>
         (pending (rows (db w)) \<noteq> [] \<longrightarrow>
            effects (step (Poll False False True now) w) = effects w @ [LogDatabaseError ErrStorage] \<and>
            db (step (Poll False False True now) w) = db w) \<and>
         (\<forall>first_fails. LogDatabaseError ErrRecordNotFound
              \<notin> set (drop (length (effects w))
                       (effects (step (Poll first_fails save_fails commit_fails now) w))))"
proof -
  have a: "claim_tx False save_fails commit_fails now (db w) =
             (Some ErrRecordNotFound, False, zeroTask, db w)"
    if "pending (rows (db w)) = []"
    using that by (simp add: claim_tx_def db_First_def)
  have b: "step (Poll False save_fails commit_fails now) w = w\<lparr>effects := effects w @ [Sleep 2]\<rparr>"
    if "pending (rows (db w)) = []"
    using assms a [OF that] by (simp add: taskWorker_claim_def logf_def)
  have b': "taskWorker_iteration False save_fails commit_fails now cmd_err unix final_save_fails now' w =
              w\<lparr>effects := effects w @ [Sleep 2]\<rparr>"
    if "pending (rows (db w)) = []"
    unfolding taskWorker_iteration_def run.simps b [OF that]
    using assms by (simp add: taskWorker_notify_def)
  have c: "step (Poll True save_fails commit_fails now) w =
            w\<lparr>effects := effects w @ [LogDatabaseError ErrStorage, Sleep 2]\<rparr>"
    using assms by (simp add: taskWorker_claim_def claim_tx_def db_First_def logf_def)
  obtain err found task st' where
    tx: "claim_tx False True commit_fails now (db w) = (err, found, task, st')"
    by (cases "claim_tx False True commit_fails now (db w)") auto
  have d: "step (Poll False True commit_fails now) w =
              w\<lparr>effects := effects w @ [LogDatabaseError ErrStorage, Sleep 2]\<rparr>"
    if "pending (rows (db w)) \<noteq> []"
  proof -
    from that obtain t where "first_row (pending (rows (db w))) = Some t"
      by (cases "first_row (pending (rows (db w)))") (auto simp: first_row_None)
    with tx have "err = Some ErrStorage \<and> \<not> found"
      by (auto simp: claim_tx_def db_First_def db_Save_def db_Create_def Let_def split: if_splits)
    with claim_step [OF assms tx] show ?thesis by simp
  qed
  obtain err2 found2 task2 st2 where
    tx2: "claim_tx False False True now (db w) = (err2, found2, task2, st2)"
    by (cases "claim_tx False False True now (db w)") auto
  have d': "effects (step (Poll False False True now) w) = effects w @ [LogDatabaseError ErrStorage] \<and>
            db (step (Poll False False True now) w) = db w"
    if "pending (rows (db w)) \<noteq> []"
  proof -
    from that obtain t where "first_row (pending (rows (db w))) = Some t"
      by (cases "first_row (pending (rows (db w)))") (auto simp: first_row_None)
    with tx2 have "found2"
      by (auto simp: claim_tx_def db_First_def db_Save_def db_Create_def Let_def split: if_splits)
    moreover from claim_tx_unchanged [OF tx2] have "st2 = db w" by simp
    ultimately show ?thesis using claim_step [OF assms tx2] by simp
  qed
  have e: "LogDatabaseError ErrRecordNotFound
              \<notin> set (drop (length (effects w))
                       (effects (step (Poll ff save_fails commit_fails now) w)))" for ff
  proof -
    obtain err3 found3 task3 st3 where
      tx3: "claim_tx ff save_fails commit_fails now (db w) = (err3, found3, task3, st3)"
      by (cases "claim_tx ff save_fails commit_fails now (db w)") auto
    show ?thesis
    proof (cases found3)
      case True
      with claim_step [OF assms tx3] show ?thesis by simp
    next
      case False
      with claim_tx_unchanged [OF tx3] obtain e where "err3 = Some e" by auto
      with False claim_step [OF assms tx3] show ?thesis by auto
    qed
  qed
  from a b b' c d d' e show ?thesis by blast
qed

theorem empty_queue_backoff_witness:
  "worker init = Idle \<and> pending (rows (db init)) = [] \<and>
   step (Poll False False False 3) init = init\<lparr>effects := [Sleep 2]\<rparr> \<and>
   taskWorker_iteration False False False 3 None 4 False 5 init = init\<lparr>effects := [Sleep 2]\<rparr> \<and>
   step (Poll True False False 3) init = init\<lparr>effects := [LogDatabaseError ErrStorage, Sleep 2]\<rparr> \<and>
   worker (boot ex_store) = Idle \<and> pending (rows (db (boot ex_store))) \<noteq> [] \<and>
   step (Poll False True False 3) (boot ex_store) =
     (boot ex_store)\<lparr>effects := [LogDatabaseError ErrStorage, Sleep 2]\<rparr> \<and>
   effects (step (Poll False False True 3) (boot ex_store)) = [LogDatabaseError ErrStorage]"
proof -
  have h: "worker init = Idle" by (simp add: init_def boot_def)
  have p: "pending (rows (db init)) = []" by (simp add: init_def boot_def pending_def)
  have e: "effects init = []" by (simp add: init_def boot_def)
  have h2: "worker (boot ex_store) = Idle" by (simp add: boot_def)
  have p2: "pending (rows (db (boot ex_store))) \<noteq> []" by (simp add: ev)
  have e2: "effects (boot ex_store) = []" by (simp add: boot_def)
  from empty_queue_backoff [OF h, where save_fails = False and commit_fails = False and now = 3
      and cmd_err = None and unix = 4 and final_save_fails = False and now' = 5] h p e
  have 1: "step (Poll False False False 3) init = init\<lparr>effects := [Sleep 2]\<rparr>"
    and 2: "taskWorker_iteration False False False 3 None 4 False 5 init = init\<lparr>effects := [Sleep 2]\<rparr>"
    and 3: "step (Poll True False False 3) init = init\<lparr>effects := [LogDatabaseError ErrStorage, Sleep 2]\<rparr>"
    by simp_all
  from empty_queue_backoff [OF h2, where save_fails = False and commit_fails = False and now = 3] p2 e2
  have 4: "step (Poll False True False 3) (boot ex_store) =
     (boot ex_store)\<lparr>effects := [LogDatabaseError ErrStorage, Sleep 2]\<rparr>"
    and 5: "effects (step (Poll False False True 3) (boot ex_store)) = [LogDatabaseError ErrStorage]"
    by simp_all
  from h p 1 2 3 h2 p2 4 5 show ?thesis by (intro conjI)
qed

section \<open>Messages of other types, and failed replies\<close>

text \<open>
  Claim C9 (unknown messages are ignored). A message whose type is neither
  \<open>get_history\<close> nor \<open>create_task\<close> changes nothing: the table, the channel, the frames
  written and the registered connections are as before, and the session is again about
  to read.
\<close>
theorem unknown_message_ignored:
  assumes "msg_Type msg \<noteq> ''get_history''" and "msg_Type msg \<noteq> ''create_task''"
  shows "serveWs_read ws (Inr msg) find_fails create_fails now w = w \<and>
         step (Read ws (Inr msg) find_fails create_fails now) w = w \<and>
         (session w ws = Some Reading \<longrightarrow>
            serveWs_iteration ws (Inr msg) find_fails write_fails create_fails now w = w)"
  using assms
  by (auto simp: serveWs_read_def serveWs_iteration_def split: option.splits session_pc.splits)

theorem unknown_message_ignored_witness:
  "msg_Type (WSMessage ''ping'' ''x'') \<noteq> ''get_history'' \<and>
   msg_Type (WSMessage ''ping'' ''x'') \<noteq> ''create_task'' \<and>
   session ex_world 1 = Some Reading \<and>
   step (Read 1 (Inr (WSMessage ''ping'' ''x'')) False False 3) ex_world = ex_world \<and>
   serveWs_iteration 1 (Inr (WSMessage ''ping'' ''x'')) False False False 3 ex_world = ex_world"
proof -
  have r: "session ex_world 1 = Some Reading" by (simp add: ev)
  from unknown_message_ignored [of "WSMessage ''ping'' ''x''" 1 False False 3 ex_world False] r
  show ?thesis by simp
qed

text \<open>
  Claim C10 (a failed history reply does not unregister). When the write of the history
  reply fails, nothing changes but the place of the session, which is again about to
  read: the connection is still registered. A whole iteration for \<open>get_history\<close> whose
  write fails leaves the state as it was. A step that unregisters a connection is a
  failed read of its session or a dispatch in which the write to it fails; and each of
  these does unregister it.
\<close>
theorem failed_history_reply_keeps_connection:
  "(session w ws = Some (Replying resp) \<longrightarrow>
      step (Reply ws True) w = w\<lparr>session := (session w)(ws \<mapsto> Reading)\<rparr>) \<and>
   (msg_Type msg = ''get_history'' \<and> session w ws = Some Reading \<longrightarrow>
      serveWs_iteration ws (Inr msg) find_fails True create_fails now w = w) \<and>
   (clients w c \<noteq> None \<and> clients (step a w) c = None \<longrightarrow>
      (\<exists>e ff cf t. a = Read c (Inl e) ff cf t) \<or>
      (\<exists>wfail. a = Dispatch wfail \<and> wfail c \<and> broadcast w \<noteq> [])) \<and>
   (session w c = Some Reading \<longrightarrow> clients (step (Read c (Inl e) ff cf t) w) c = None) \<and>
   (broadcast w \<noteq> [] \<and> wfail c \<longrightarrow> clients (step (Dispatch wfail) w) c = None)"
proof -
  have i1: "session w ws = Some (Replying resp) \<longrightarrow>
      step (Reply ws True) w = w\<lparr>session := (session w)(ws \<mapsto> Reading)\<rparr>"
    by (simp add: serveWs_reply_def)
  have i2: "msg_Type msg = ''get_history'' \<and> session w ws = Some Reading \<longrightarrow>
      serveWs_iteration ws (Inr msg) find_fails True create_fails now w = w"
  proof
    assume h: "msg_Type msg = ''get_history'' \<and> session w ws = Some Reading"
    then have "(session w)(ws \<mapsto> Reading) = session w" by (simp add: map_upd_triv)
    with h show "serveWs_iteration ws (Inr msg) find_fails True create_fails now w = w"
      by (simp add: serveWs_iteration_def serveWs_read_def serveWs_reply_def)
  qed
  have i3: "clients w c \<noteq> None \<and> clients (step a w) c = None \<longrightarrow>
      (\<exists>e ff cf t. a = Read c (Inl e) ff cf t) \<or>
      (\<exists>wfail. a = Dispatch wfail \<and> wfail c \<and> broadcast w \<noteq> [])"
  proof
    assume h: "clients w c \<noteq> None \<and> clients (step a w) c = None"
    then have h': "clients w c \<noteq> None"
      "(case a of
        Connect ws uf \<Rightarrow> if ws = c \<and> session w ws = None \<and> \<not> uf then Some True else clients w c
      | Read ws rd ff cf now \<Rightarrow>
          if ws = c \<and> session w ws = Some Reading \<and> isl rd then None else clients w c
      | Dispatch wfail \<Rightarrow> if broadcast w \<noteq> [] \<and> wfail c then None else clients w c
      | _ \<Rightarrow> clients w c) = None"
      unfolding clients_step by simp_all
    show "(\<exists>e ff cf t. a = Read c (Inl e) ff cf t) \<or>
      (\<exists>wfail. a = Dispatch wfail \<and> wfail c \<and> broadcast w \<noteq> [])"
    proof (cases a)
      case (Read ws' rd ff' cf' t')
      with h' have "ws' = c \<and> isl rd" by (auto split: if_splits)
      then obtain e' where "ws' = c" "rd = Inl e'" by (cases rd) auto
      with Read show ?thesis by blast
    next
      case (Dispatch wfail')
      with h' show ?thesis by (auto split: if_splits)
    qed (use h' in \<open>auto split: if_splits\<close>)
  qed
  have i4: "session w c = Some Reading \<longrightarrow> clients (step (Read c (Inl e) ff cf t) w) c = None"
    unfolding clients_step by simp
  have i5: "broadcast w \<noteq> [] \<and> wfail c \<longrightarrow> clients (step (Dispatch wfail) w) c = None"
    unfolding clients_step by simp
  from i1 i2 i3 i4 i5 show ?thesis by (intro conjI)
qed

theorem failed_history_reply_keeps_connection_witness:
  "msg_Type (WSMessage ''get_history'' []) = ''get_history'' \<and> session ex_world 1 = Some Reading \<and>
   serveWs_iteration 1 (Inr (WSMessage ''get_history'' [])) False True False 6 ex_world = ex_world \<and>
   clients ex_world 1 \<noteq> None \<and>
   clients (step (Reply 1 True) (step (Read 1 (Inr (WSMessage ''get_history'' [])) False False 6) ex_world)) 1
     \<noteq> None \<and>
   clients (step (Read 1 (Inl ErrIO) False False 6) ex_world) 1 = None \<and>
   broadcast (publish ex_new ex_world) \<noteq> [] \<and>
   clients (step (Dispatch (\<lambda>c. c = 2)) (publish ex_new ex_world)) 2 = None \<and>
   clients (step (Dispatch (\<lambda>c. c = 2)) (publish ex_new ex_world)) 1 \<noteq> None"
proof -
  let ?h = "WSMessage ''get_history'' []"
  let ?r = "step (Read 1 (Inr ?h) False False 6) ex_world"
  have g: "msg_Type ?h = ''get_history''" by simp
  have s: "session ex_world 1 = Some Reading" by (simp add: ev)
  have r: "clients ex_world 1 \<noteq> None" by (simp add: ev)
  have b: "broadcast (publish ex_new ex_world) \<noteq> []" by (simp add: publish_def)
  have k: "clients (step (Dispatch (\<lambda>c. c = 2)) (publish ex_new ex_world)) 1 \<noteq> None"
    by (auto simp: ev domIff)
  have p: "session ?r 1 = Some (Replying (history_reply False ex_store))"
    and cr: "clients ?r 1 \<noteq> None" by (simp_all add: ev)
  note t = failed_history_reply_keeps_connection
  from t [where msg = ?h and ws = 1 and find_fails = False and create_fails = False and now = 6
            and w = ex_world] g s
  have 1: "serveWs_iteration 1 (Inr ?h) False True False 6 ex_world = ex_world" by simp
  from t [where w = ?r and ws = 1 and resp = "history_reply False ex_store"] p cr
  have 2: "clients (step (Reply 1 True) ?r) 1 \<noteq> None" by simp
  from t [where w = ex_world and c = 1 and e = ErrIO and ff = False and cf = False and t = 6] s
  have 3: "clients (step (Read 1 (Inl ErrIO) False False 6) ex_world) 1 = None" by simp
  from t [where w = "publish ex_new ex_world" and c = 2 and wfail = "\<lambda>c. c = 2"] b
  have 4: "clients (step (Dispatch (\<lambda>c. c = 2)) (publish ex_new ex_world)) 2 = None" by simp
  from g s 1 r 2 3 b 4 k show ?thesis by (intro conjI)
qed

end
